theory Spec2Isabelle
  imports Complex_Main "HOL-Library.Sublist"
begin

section \<open>JavaScript strings\<close>

text \<open>
  A JavaScript string is a sequence of UTF-16 code units.  The development models the
  strings whose code units are all below 256 (the Latin-1 range): one \<^typ>\<open>char\<close> per code
  unit, so \<open>length\<close> is the \<open>.length\<close> of the source.  The library functions used by the
  source are given on that range as ECMAScript defines them.
\<close>

abbreviation DQUOTE :: char where "DQUOTE \<equiv> CHR 0x22"
abbreviation COMMA :: char where "COMMA \<equiv> CHR 0x2C"
abbreviation LF :: char where "LF \<equiv> CHR 0x0A"
abbreviation SQUOTE :: char where "SQUOTE \<equiv> CHR 0x27"

text \<open>
  White space and line terminators of ECMAScript below 256: TAB, LF, VT, FF, CR, SP and
  NBSP.  This is the set removed by \<open>String.prototype.trim\<close> and matched by \<open>\s\<close>.
\<close>

definition isWhiteSpace :: "char \<Rightarrow> bool" where
  "isWhiteSpace c =
     (c = CHR 0x09 \<or> c = CHR 0x0A \<or> c = CHR 0x0B \<or> c = CHR 0x0C \<or> c = CHR 0x0D
      \<or> c = CHR 0x20 \<or> c = CHR 0xA0)"

text \<open>\<open>s.trim()\<close>\<close>

definition trim :: "string \<Rightarrow> string" where
  "trim s = rev (dropWhile isWhiteSpace (rev (dropWhile isWhiteSpace s)))"

text \<open>\<open>s.split(c)\<close> for a one-character separator: the result is never the empty array.\<close>

fun split :: "char \<Rightarrow> string \<Rightarrow> string list" where
  "split sep [] = [[]]"
| "split sep (c # cs) =
     (if c = sep then [] # split sep cs
      else (case split sep cs of
              [] \<Rightarrow> [[c]]
            | l # ls \<Rightarrow> (c # l) # ls))"

text \<open>\<open>xs.join(sep)\<close> on an array of strings.\<close>

fun join :: "string \<Rightarrow> string list \<Rightarrow> string" where
  "join sep [] = []"
| "join sep [x] = x"
| "join sep (x # y # ys) = x @ sep @ join sep (y # ys)"

text \<open>\<open>s.includes(t)\<close>: \<open>t\<close> occurs in \<open>s\<close> as a contiguous substring.\<close>

fun includesStr :: "string \<Rightarrow> string \<Rightarrow> bool" where
  "includesStr [] t = (t = [])"
| "includesStr (c # cs) t = (prefix t (c # cs) \<or> includesStr cs t)"

text \<open>
  \<open>s.toLowerCase()\<close> below 256: the letters A to Z, and the letters U+00C0 to U+00DE except
  the multiplication sign U+00D7, move up by 32; every other code unit is unchanged.
\<close>

definition toLowerChar :: "char \<Rightarrow> char" where
  "toLowerChar c =
     (let n = (of_char c :: nat) in
      if (65 \<le> n \<and> n \<le> 90) \<or> (192 \<le> n \<and> n \<le> 222 \<and> n \<noteq> 215)
      then char_of (n + 32) else c)"

definition toLowerCase :: "string \<Rightarrow> string" where
  "toLowerCase s = map toLowerChar s"

text \<open>The character class \<open>\d\<close>.\<close>

definition isDigit :: "char \<Rightarrow> bool" where
  "isDigit c = (let n = (of_char c :: nat) in 48 \<le> n \<and> n \<le> 57)"

section \<open>Plain objects used as dictionaries\<close>

text \<open>
  The source keeps rows, mappings and suggestions in plain objects keyed by strings.  An
  object is modelled by the list of its own properties in creation order, keys distinct.
  Every such object has \<open>Object.prototype\<close> as its prototype, so a read or a write of a key
  that is not an own property goes on to the properties of \<open>Object.prototype\<close>.
\<close>

type_synonym 'v jsobj = "(string \<times> 'v) list"

text \<open>
  The property names of \<open>Object.prototype\<close>.  All are methods, but \<open>constructor\<close>, which is
  the function \<open>Object\<close>, and \<open>__proto__\<close>, which is an accessor: its getter returns the
  prototype of the object, and its setter ignores a value that is not an object.
\<close>

definition objectPrototypeNames :: "string list" where
  "objectPrototypeNames =
     [''constructor'', ''__defineGetter__'', ''__defineSetter__'', ''hasOwnProperty'',
      ''__lookupGetter__'', ''__lookupSetter__'', ''isPrototypeOf'', ''propertyIsEnumerable'',
      ''toString'', ''valueOf'', ''__proto__'', ''toLocaleString'']"

text \<open>
  What a read \<open>obj[key]\<close> gives: \<open>undefined\<close>, the value of an own property, or the
  function or object found under that name on \<open>Object.prototype\<close>.
\<close>

datatype 'v jsval = Undefined | Value 'v | Inherited string

text \<open>The own property of that name, if there is one.\<close>

definition ownProp :: "'v jsobj \<Rightarrow> string \<Rightarrow> 'v option" where
  "ownProp obj key = map_of obj key"

text \<open>\<open>obj[key]\<close>\<close>

definition getProp :: "'v jsobj \<Rightarrow> string \<Rightarrow> 'v jsval" where
  "getProp obj key =
     (case ownProp obj key of
        Some v \<Rightarrow> Value v
      | None \<Rightarrow> if key \<in> set objectPrototypeNames then Inherited key else Undefined)"

text \<open>
  \<open>obj[key] = v\<close> for a string \<open>v\<close>: an existing own property keeps its place, a new one
  goes last; when there is no own property \<open>__proto__\<close>, the assignment to that name calls
  the setter of \<open>Object.prototype\<close>, which does nothing with a string.
\<close>

fun setProp :: "'v jsobj \<Rightarrow> string \<Rightarrow> 'v \<Rightarrow> 'v jsobj" where
  "setProp [] key v = (if key = ''__proto__'' then [] else [(key, v)])"
| "setProp (p # ps) key v = (if fst p = key then (key, v) # ps else p # setProp ps key v)"

text \<open>\<open>delete obj[key]\<close>\<close>

definition deleteProp :: "'v jsobj \<Rightarrow> string \<Rightarrow> 'v jsobj" where
  "deleteProp obj key = filter (\<lambda>p. fst p \<noteq> key) obj"

text \<open>
  Property enumeration (\<open>Object.keys\<close>, \<open>Object.values\<close>, \<open>Object.entries\<close>, spread): the keys
  that are array indices (canonical decimal numerals up to \<open>2^32 - 2\<close>) come first, in
  ascending numeric order, then the other keys in creation order.
\<close>

definition digitsValue :: "string \<Rightarrow> int" where
  "digitsValue s = foldl (\<lambda>n c. 10 * n + (of_char c - 48)) 0 s"

definition isArrayIndex :: "string \<Rightarrow> bool" where
  "isArrayIndex s =
     (s \<noteq> [] \<and> list_all isDigit s \<and> (if hd s = CHR ''0'' then length s = 1 else True)
      \<and> digitsValue s < 4294967295)"

definition ownEntries :: "'v jsobj \<Rightarrow> (string \<times> 'v) list" where
  "ownEntries obj =
     sort_key (\<lambda>p. digitsValue (fst p)) (filter (\<lambda>p. isArrayIndex (fst p)) obj)
     @ filter (\<lambda>p. \<not> isArrayIndex (fst p)) obj"

definition objectKeys :: "'v jsobj \<Rightarrow> string list" where
  "objectKeys obj = map fst (ownEntries obj)"

definition objectValues :: "'v jsobj \<Rightarrow> 'v list" where
  "objectValues obj = map snd (ownEntries obj)"

section \<open>The CSV tokenizer (csv-processor.js)\<close>

text \<open>Every \<open>throw new Error(msg)\<close> of the source is a value carrying the message.\<close>

datatype error = Error string

type_synonym row = "string jsobj"

record csvDocument =
  headers :: "string list"
  data :: "row list"

text \<open>
  The scan of \<open>parseCSVLine\<close>: the characters still to read, the \<open>inQuotes\<close> flag, the
  \<open>currentField\<close> and the \<open>result\<close> so far.  Reading \<open>line[i + 1]\<close> past the end gives
  \<open>undefined\<close>, which is not a quote.
\<close>

fun parseCSVLine_scan :: "string \<Rightarrow> bool \<Rightarrow> string \<Rightarrow> string list \<Rightarrow> string list" where
  "parseCSVLine_scan [] inQuotes currentField result = result @ [trim currentField]"
| "parseCSVLine_scan (c # cs) inQuotes currentField result =
     (if c = DQUOTE then
        (case cs of
           [] \<Rightarrow> parseCSVLine_scan cs (\<not> inQuotes) currentField result
         | d # ds \<Rightarrow>
             if inQuotes \<and> d = DQUOTE
             then parseCSVLine_scan ds inQuotes (currentField @ [DQUOTE]) result
             else parseCSVLine_scan cs (\<not> inQuotes) currentField result)
      else if c = COMMA \<and> \<not> inQuotes
      then parseCSVLine_scan cs inQuotes [] (result @ [trim currentField])
      else parseCSVLine_scan cs inQuotes (currentField @ [c]) result)"

definition parseCSVLine :: "string \<Rightarrow> string list" where
  "parseCSVLine line = parseCSVLine_scan line False [] []"

text \<open>
  The row object built for one data line: \<open>rowObject[header] = row[index] || ''\<close> for each
  header in turn.
\<close>

definition cellAt :: "string list \<Rightarrow> nat \<Rightarrow> string" where
  "cellAt row index = (if index < length row then row ! index else [])"

definition makeRowObject :: "string list \<Rightarrow> string list \<Rightarrow> row" where
  "makeRowObject hs row =
     foldl (\<lambda>rowObject (header, index). setProp rowObject header (cellAt row index))
       [] (zip hs [0 ..< length hs])"

definition parseCSVText :: "string \<Rightarrow> error + csvDocument" where
  "parseCSVText csvText =
     (let lines = split LF (trim csvText) in
      if length lines = 0 then Inl (Error ''CSV file is empty'')
      else
        let hs = parseCSVLine (hd lines);
            rows = map (\<lambda>l. makeRowObject hs (parseCSVLine l))
                     (filter (\<lambda>l. trim l \<noteq> []) (tl lines))
        in Inr \<lparr> headers = hs, data = rows \<rparr>)"


section \<open>Matching CSV headers to target fields (csv-processor.js)\<close>

text \<open>
  A target field as \<open>getObjectMetadata\<close> of salesforce-api.js builds it.  The processor
  reads the properties \<open>name\<close>, \<open>label\<close> and \<open>required\<close> only.
\<close>

record targetField =
  name :: string
  label :: string
  required :: bool

text \<open>The character class \<open>[a-z0-9]\<close>.\<close>

definition isLowerAlnum :: "char \<Rightarrow> bool" where
  "isLowerAlnum c = (let n = (of_char c :: nat) in (97 \<le> n \<and> n \<le> 122) \<or> (48 \<le> n \<and> n \<le> 57))"

text \<open>\<open>s.replace(/id$/, '')\<close>\<close>

definition stripIdSuffix :: "string \<Rightarrow> string" where
  "stripIdSuffix s = (if suffix ''id'' s then take (length s - 2) s else s)"

definition normalizeFieldName :: "string \<Rightarrow> string" where
  "normalizeFieldName fieldName = stripIdSuffix (filter isLowerAlnum (toLowerCase fieldName))"

definition commonMappings :: "(string \<times> string list) list" where
  "commonMappings =
     [(''firstname'', [''firstname'', ''fname'', ''givenname'']),
      (''lastname'', [''lastname'', ''lname'', ''surname'', ''familyname'']),
      (''email'', [''email'', ''emailaddress'', ''mail'']),
      (''phone'', [''phone'', ''phonenumber'', ''telephone'', ''mobile'']),
      (''company'', [''company'', ''companyname'', ''organization'', ''account'']),
      (''title'', [''title'', ''jobtitle'', ''position'']),
      (''street'', [''street'', ''address'', ''address1'', ''streetaddress'']),
      (''city'', [''city'', ''town'']),
      (''state'', [''state'', ''province'', ''region'']),
      (''postalcode'', [''zip'', ''zipcode'', ''postalcode'', ''postcode'']),
      (''country'', [''country'', ''nation''])]"

text \<open>
  The scores are the decimal literals 0, 0.7, 0.8, 0.9 and 1.0 of the source, compared with
  each other and with 0.6; on these values the order of the doubles is the order of the
  reals, so a score is a real number here.
\<close>

text \<open>
  One round of the loop over \<open>commonMappings\<close>: the inner loop raises the score to at least
  0.9 at the first CSV pattern found in the header and breaks.
\<close>

definition commonMappingStep :: "string \<Rightarrow> string \<Rightarrow> real \<Rightarrow> string \<times> string list \<Rightarrow> real" where
  "commonMappingStep csvNormalized sfNormalized score entry =
     (if includesStr sfNormalized (fst entry)
      then (if list_ex (\<lambda>csvPattern. includesStr csvNormalized csvPattern) (snd entry)
            then max score 0.9 else score)
      else score)"

definition calculateFieldMatchScore :: "string \<Rightarrow> targetField \<Rightarrow> real" where
  "calculateFieldMatchScore csvField sfField =
     (let csvNormalized = normalizeFieldName csvField;
          sfNormalized = normalizeFieldName (name sfField);
          sfLabelNormalized = normalizeFieldName (label sfField)
      in if csvNormalized = sfNormalized \<or> csvNormalized = sfLabelNormalized then 1.0
         else
           let score0 = 0;
               score1 = (if includesStr csvNormalized sfNormalized
                            \<or> includesStr sfNormalized csvNormalized
                         then max score0 0.8 else score0);
               score2 = (if includesStr csvNormalized sfLabelNormalized
                            \<or> includesStr sfLabelNormalized csvNormalized
                         then max score1 0.7 else score1)
           in foldl (commonMappingStep csvNormalized sfNormalized) score2 commonMappings)"

text \<open>
  The inner \<open>forEach\<close> of \<open>generateMappingSuggestions\<close>: \<open>bestMatch\<close> (initially \<open>null\<close>) and
  \<open>bestScore\<close> (initially 0) after all fields have been seen.
\<close>

definition bestMatchStep ::
  "string \<Rightarrow> targetField option \<times> real \<Rightarrow> targetField \<Rightarrow> targetField option \<times> real" where
  "bestMatchStep normalizedCsvHeader best sfField =
     (let score = calculateFieldMatchScore normalizedCsvHeader sfField
      in if score > snd best then (Some sfField, score) else best)"

definition bestMatchOf :: "string \<Rightarrow> targetField list \<Rightarrow> targetField option \<times> real" where
  "bestMatchOf normalizedCsvHeader salesforceFields =
     foldl (bestMatchStep normalizedCsvHeader) (None, 0) salesforceFields"

text \<open>
  The outer \<open>forEach\<close>, with the \<open>suggestions\<close> object built so far.  Reading
  \<open>bestMatch.name\<close> while \<open>bestMatch\<close> is \<open>null\<close> would raise a TypeError.
\<close>

fun suggestionsLoop ::
  "string list \<Rightarrow> targetField list \<Rightarrow> string jsobj \<Rightarrow> error + string jsobj" where
  "suggestionsLoop [] salesforceFields suggestions = Inr suggestions"
| "suggestionsLoop (csvHeader # rest) salesforceFields suggestions =
     (let best = bestMatchOf (normalizeFieldName csvHeader) salesforceFields
      in if snd best > 0.6
         then (case fst best of
                 None \<Rightarrow> Inl (Error ''TypeError: bestMatch is null'')
               | Some bestMatch \<Rightarrow>
                   suggestionsLoop rest salesforceFields
                     (setProp suggestions csvHeader (name bestMatch)))
         else suggestionsLoop rest salesforceFields suggestions)"

definition generateMappingSuggestions ::
  "string list \<Rightarrow> targetField list \<Rightarrow> error + string jsobj" where
  "generateMappingSuggestions csvHeaders salesforceFields =
     suggestionsLoop csvHeaders salesforceFields []"

section \<open>Validating the mapping table (csv-processor.js)\<close>

text \<open>\<open>xs.indexOf(x)\<close>: the first position of \<open>x\<close>, or -1.\<close>

fun indexOf :: "'a list \<Rightarrow> 'a \<Rightarrow> int" where
  "indexOf [] x = -1"
| "indexOf (y # ys) x =
     (if y = x then 0 else (let i = indexOf ys x in if i < 0 then -1 else i + 1))"

text \<open>\<open>[...new Set(xs)]\<close>: each element once, in the order of first occurrence.\<close>

definition uniqueValues :: "'a list \<Rightarrow> 'a list" where
  "uniqueValues xs = foldl (\<lambda>seen x. if x \<in> set seen then seen else seen @ [x]) [] xs"

definition requiredFieldMessage :: "targetField \<Rightarrow> string" where
  "requiredFieldMessage field =
     ''Required field '' @ [SQUOTE] @ label field @ [SQUOTE] @ '' is not mapped''"

definition duplicateMappings :: "string list \<Rightarrow> string list" where
  "duplicateMappings mappedSfFields =
     map fst (filter (\<lambda>(field, index). indexOf mappedSfFields field \<noteq> int index)
                (zip mappedSfFields [0 ..< length mappedSfFields]))"

definition duplicatesMessage :: "string list \<Rightarrow> string" where
  "duplicatesMessage duplicates =
     ''Duplicate mappings found for: '' @ join '', '' (uniqueValues duplicates)"

text \<open>\<open>validateMappings\<close>, with \<open>this.mappings\<close> as its first argument.\<close>

definition validateMappings :: "string jsobj \<Rightarrow> targetField list \<Rightarrow> string list" where
  "validateMappings mappings salesforceFields =
     (let requiredFields = filter required salesforceFields;
          mappedSfFields = objectValues mappings;
          errors = map requiredFieldMessage
                     (filter (\<lambda>field. name field \<notin> set mappedSfFields) requiredFields);
          duplicates = duplicateMappings mappedSfFields
      in if length duplicates > 0 then errors @ [duplicatesMessage duplicates] else errors)"

section \<open>Formatting and re-serializing (csv-processor.js)\<close>

text \<open>The character class \<open>[\d\s\-\(\)\.+]\<close>.\<close>

definition isPhoneChar :: "char \<Rightarrow> bool" where
  "isPhoneChar c =
     (isDigit c \<or> isWhiteSpace c \<or> c = CHR ''-'' \<or> c = CHR ''('' \<or> c = CHR '')''
      \<or> c = CHR ''.'' \<or> c = CHR ''+'')"

definition booleanValues :: "string list" where
  "booleanValues = [''true'', ''false'', ''yes'', ''no'', ''1'', ''0'']"

definition booleanMap :: "string jsobj" where
  "booleanMap =
     [(''true'', ''true''), (''yes'', ''true''), (''1'', ''true''),
      (''false'', ''false''), (''no'', ''false''), (''0'', ''false'')]"

text \<open>
  \<open>formatValue\<close> on a string.  Its first step, \<open>String(value)\<close> for a value that is not a
  string, is \<open>stringOf\<close> below, applied where the cell is read.  The keys looked up in
  \<open>booleanMap\<close> are own properties of it.
\<close>

definition formatValue :: "string \<Rightarrow> string" where
  "formatValue value =
     (let value1 = trim value;
          value2 = (if includesStr value1 ''@'' then toLowerCase value1 else value1);
          value3 = (if value2 \<noteq> [] \<and> list_all isPhoneChar value2 \<and> length value2 \<ge> 10
                    then filter (\<lambda>c. isDigit c \<or> c = CHR ''+'') value2 else value2)
      in if toLowerCase value3 \<in> set booleanValues
         then (case ownProp booleanMap (toLowerCase value3) of
                 Some b \<Rightarrow> b
               | None \<Rightarrow> value3)
         else value3)"

text \<open>\<open>value.replace(/"/g, '""')\<close>\<close>

definition doubleQuotes :: "string \<Rightarrow> string" where
  "doubleQuotes value = concat (map (\<lambda>c. if c = DQUOTE then [DQUOTE, DQUOTE] else [c]) value)"

text \<open>The enclosing-quote encoding \<open>'"' + value.replace(/"/g, '""') + '"'\<close>.\<close>

definition encloseInQuotes :: "string \<Rightarrow> string" where
  "encloseInQuotes value = [DQUOTE] @ doubleQuotes value @ [DQUOTE]"

text \<open>The escaping step of \<open>generateMappedCSV\<close>, applied to a formatted value.\<close>

definition escapeValue :: "string \<Rightarrow> string" where
  "escapeValue value =
     (if includesStr value [COMMA] \<or> includesStr value [DQUOTE] \<or> includesStr value [LF]
      then encloseInQuotes value else value)"

text \<open>\<open>x || ''\<close> for a cell read from a row.\<close>

definition orEmpty :: "string jsval \<Rightarrow> string jsval" where
  "orEmpty v = (case v of Undefined \<Rightarrow> Value [] | Value s \<Rightarrow> Value s | Inherited k \<Rightarrow> Inherited k)"

text \<open>
  \<open>String(value)\<close>: a string is itself; a method of \<open>Object.prototype\<close> prints as the
  browser of the extension prints a native function, and \<open>Object.prototype\<close> itself, which
  is what \<open>__proto__\<close> reads, prints as \<open>[object Object]\<close>.
\<close>

definition stringOf :: "string jsval \<Rightarrow> string" where
  "stringOf v =
     (case v of
        Undefined \<Rightarrow> ''undefined''
      | Value s \<Rightarrow> s
      | Inherited k \<Rightarrow>
          if k = ''__proto__'' then ''[object Object]''
          else ''function '' @ (if k = ''constructor'' then ''Object'' else k)
               @ ''() { [native code] }'')"

text \<open>One cell of the payload: the body of the inner \<open>forEach\<close>.\<close>

definition mappedCell :: "row \<Rightarrow> string \<Rightarrow> string" where
  "mappedCell row csvField =
     escapeValue (formatValue (stringOf (orEmpty (getProp row csvField))))"

definition mappedRow :: "string jsobj \<Rightarrow> row \<Rightarrow> string" where
  "mappedRow mappings row = join [COMMA] (map (\<lambda>entry. mappedCell row (fst entry)) (ownEntries mappings))"

text \<open>
  \<open>generateMappedCSV\<close>, with \<open>this.csvData\<close> (\<open>None\<close> for \<open>null\<close>) and \<open>this.mappings\<close> as
  arguments.
\<close>

definition generateMappedCSV :: "row list option \<Rightarrow> string jsobj \<Rightarrow> error + string" where
  "generateMappedCSV csvData mappings =
     (case csvData of
        None \<Rightarrow> Inl (Error ''No data or mappings available'')
      | Some rows \<Rightarrow>
          if length (objectKeys mappings) = 0 then Inl (Error ''No data or mappings available'')
          else
            let mappedHeaders = objectValues mappings;
                csvLines = [join [COMMA] mappedHeaders] @ map (mappedRow mappings) rows
            in Inr (join [LF] csvLines))"


section \<open>Inferring a field type from sample values (csv-processor.js)\<close>

text \<open>
  The objects returned by \<open>determineFieldType\<close>; a property that the returned object lacks, or
  holds as \<open>null\<close>, is \<open>None\<close>.
\<close>

record fieldTypeInfo =
  typeName :: string
  fieldLength :: "nat option"
  precision :: "nat option"
  scale :: "nat option"

text \<open>
  Functions of the host that the inference calls on a sample value and that are taken as
  parameters: \<open>isNumber val\<close> stands for \<open>!isNaN(val) && !isNaN(parseFloat(val))\<close> and
  \<open>isDate val\<close> for \<open>!isNaN(Date.parse(val))\<close>.
\<close>

record host =
  isNumber :: "string \<Rightarrow> bool"
  isDate :: "string \<Rightarrow> bool"

text \<open>The test \<open>val && val.trim() !== ''\<close> on a string.\<close>

definition nonBlank :: "string \<Rightarrow> bool" where
  "nonBlank val = (val \<noteq> [] \<and> trim val \<noteq> [])"

text \<open>
  The filter \<open>val && val.trim() !== ''\<close> over the cells read from the rows: \<open>undefined\<close> is
  dropped, a string is kept when it is not blank, and a function or an object inherited
  from \<open>Object.prototype\<close> has no \<open>trim\<close>, so that calling it raises a TypeError.
\<close>

fun filterNonBlank :: "string jsval list \<Rightarrow> error + string list" where
  "filterNonBlank [] = Inr []"
| "filterNonBlank (val # vals) =
     (case val of
        Undefined \<Rightarrow> filterNonBlank vals
      | Inherited k \<Rightarrow> Inl (Error ''TypeError: val.trim is not a function'')
      | Value s \<Rightarrow>
          (case filterNonBlank vals of
             Inl e \<Rightarrow> Inl e
           | Inr kept \<Rightarrow> if nonBlank s then Inr (s # kept) else Inr kept))"

text \<open>\<open>sampleValues\<close>: the first 20 rows, their cells in the column, the non-blank ones kept.\<close>

definition sampleValues :: "row list \<Rightarrow> string \<Rightarrow> error + string list" where
  "sampleValues csvData csvHeader =
     filterNonBlank (map (\<lambda>row. getProp row csvHeader) (take 20 csvData))"

text \<open>The character class \<open>[^\s@]\<close> and the test \<open>/^[^\s@]+@[^\s@]+\.[^\s@]+$/\<close>.\<close>

definition isEmailChar :: "char \<Rightarrow> bool" where
  "isEmailChar c = (\<not> isWhiteSpace c \<and> c \<noteq> CHR ''@'')"

definition matchesEmail :: "string \<Rightarrow> bool" where
  "matchesEmail val =
     (takeWhile isEmailChar val \<noteq> [] \<and>
      (case dropWhile isEmailChar val of
         [] \<Rightarrow> False
       | c # domain \<Rightarrow>
           c = CHR ''@'' \<and> list_all isEmailChar domain
           \<and> CHR ''.'' \<in> set (butlast (tl domain))))"

text \<open>The test \<open>/^[\d\s\-\(\)\.+]{10,}$/\<close>.\<close>

definition matchesPhone :: "string \<Rightarrow> bool" where
  "matchesPhone val = (list_all isPhoneChar val \<and> length val \<ge> 10)"

text \<open>The test \<open>/^https?:\/\//\<close>.\<close>

definition matchesUrl :: "string \<Rightarrow> bool" where
  "matchesUrl val = (prefix ''http://'' val \<or> prefix ''https://'' val)"

text \<open>\<open>Math.max(...lengths)\<close> on the lengths of a non-empty sample.\<close>

definition maxLengthOf :: "string list \<Rightarrow> nat" where
  "maxLengthOf vals = foldl max 0 (map length vals)"

definition defaultTextType :: fieldTypeInfo where
  "defaultTextType =
     \<lparr> typeName = ''Text'', fieldLength = Some 255, precision = None, scale = None \<rparr>"

definition classifySample :: "host \<Rightarrow> string list \<Rightarrow> fieldTypeInfo" where
  "classifySample h vals =
     (if list_ex matchesEmail vals
      then \<lparr> typeName = ''Email'', fieldLength = None, precision = None, scale = None \<rparr>
      else if list_ex matchesPhone vals
      then \<lparr> typeName = ''Phone'', fieldLength = None, precision = None, scale = None \<rparr>
      else if list_ex matchesUrl vals
      then \<lparr> typeName = ''Url'', fieldLength = None, precision = None, scale = None \<rparr>
      else if list_all (\<lambda>val. toLowerCase val \<in> set booleanValues) vals
      then \<lparr> typeName = ''Checkbox'', fieldLength = None, precision = None, scale = None \<rparr>
      else if list_all (isNumber h) vals
      then (if list_ex (\<lambda>val. includesStr val ''.'') vals
            then \<lparr> typeName = ''Number'', fieldLength = None,
                   precision = Some 18, scale = Some 2 \<rparr>
            else \<lparr> typeName = ''Number'', fieldLength = None,
                   precision = Some 18, scale = Some 0 \<rparr>)
      else if list_ex (isDate h) vals
      then \<lparr> typeName = ''Date'', fieldLength = None, precision = None, scale = None \<rparr>
      else
        let maxLength = maxLengthOf vals
        in if maxLength > 255
           then (if maxLength \<le> 32768
                 then \<lparr> typeName = ''LongTextArea'', fieldLength = Some 32768,
                        precision = None, scale = None \<rparr>
                 else \<lparr> typeName = ''LongTextArea'', fieldLength = Some 131072,
                        precision = None, scale = None \<rparr>)
           else if maxLength > 80
           then \<lparr> typeName = ''Text'', fieldLength = Some 255, precision = None, scale = None \<rparr>
           else \<lparr> typeName = ''Text'', fieldLength = Some 80, precision = None, scale = None \<rparr>)"

text \<open>\<open>determineFieldType\<close>, with \<open>this.csvData\<close> (\<open>None\<close> for \<open>null\<close>) as an argument.\<close>

definition determineFieldType ::
  "host \<Rightarrow> row list option \<Rightarrow> string \<Rightarrow> error + fieldTypeInfo" where
  "determineFieldType h csvData csvHeader =
     (case csvData of
        None \<Rightarrow> Inr defaultTextType
      | Some rows \<Rightarrow>
          if length rows = 0 then Inr defaultTextType
          else (case sampleValues rows csvHeader of
                  Inl e \<Rightarrow> Inl e
                | Inr vals \<Rightarrow>
                    if length vals = 0 then Inr defaultTextType
                    else Inr (classifySample h vals)))"

section \<open>The bulk upload (salesforce-api.js)\<close>

record jobStatus =
  state :: string
  numberRecordsProcessed :: int
  numberRecordsFailed :: int

record jobResults =
  successful :: string
  failed :: string

record uploadOutcome =
  jobId :: string
  status :: jobStatus
  results :: jobResults
  recordsProcessed :: int
  recordsFailed :: int

text \<open>
  The remote service as \<open>performBulkUpload\<close> sees it: each request either raises an error
  or returns.  \<open>getBulkJobStatus jobId n\<close> is the answer to the status request made after
  \<open>n\<close> earlier ones.  The two-second wait before each status request is not modelled.
\<close>

record remote =
  createBulkJob :: "string \<Rightarrow> string \<Rightarrow> error + string"
  uploadBulkData :: "string \<Rightarrow> string \<Rightarrow> error + unit"
  closeBulkJob :: "string \<Rightarrow> error + unit"
  getBulkJobStatus :: "string \<Rightarrow> nat \<Rightarrow> error + jobStatus"
  getBulkJobResults :: "string \<Rightarrow> error + jobResults"

definition maxAttempts :: nat where
  "maxAttempts = 30"

definition inProgress :: "jobStatus \<Rightarrow> bool" where
  "inProgress jobStatus = (state jobStatus = ''InProgress'' \<or> state jobStatus = ''JobInProgress'')"

text \<open>
  The \<open>do \<dots> while\<close> loop, entered with \<open>attempts\<close> requests already made: request the
  status, count the attempt, raise the timeout once the count has reached \<open>maxAttempts\<close>,
  and only then look at the state.
\<close>

function monitorJob :: "(nat \<Rightarrow> error + jobStatus) \<Rightarrow> nat \<Rightarrow> error + jobStatus" where
  "monitorJob getStatus attempts =
     (case getStatus attempts of
        Inl e \<Rightarrow> Inl e
      | Inr jobStatus \<Rightarrow>
          if attempts + 1 \<ge> maxAttempts then Inl (Error ''Job monitoring timeout'')
          else if inProgress jobStatus then monitorJob getStatus (attempts + 1)
          else Inr jobStatus)"
  by pat_completeness auto
termination
  by (relation "measure (\<lambda>(getStatus, attempts). maxAttempts - attempts)") auto

text \<open>The steps inside the \<open>try\<close> block.\<close>

definition bulkUploadSteps :: "remote \<Rightarrow> string \<Rightarrow> string \<Rightarrow> string \<Rightarrow> error + uploadOutcome" where
  "bulkUploadSteps r objectName csvText operation =
     (case createBulkJob r objectName operation of
        Inl e \<Rightarrow> Inl e
      | Inr job \<Rightarrow>
     (case uploadBulkData r job csvText of
        Inl e \<Rightarrow> Inl e
      | Inr _ \<Rightarrow>
     (case closeBulkJob r job of
        Inl e \<Rightarrow> Inl e
      | Inr _ \<Rightarrow>
     (case monitorJob (getBulkJobStatus r job) 0 of
        Inl e \<Rightarrow> Inl e
      | Inr jobStatus \<Rightarrow>
     (case getBulkJobResults r job of
        Inl e \<Rightarrow> Inl e
      | Inr res \<Rightarrow>
          Inr \<lparr> jobId = job, status = jobStatus, results = res,
                recordsProcessed = numberRecordsProcessed jobStatus,
                recordsFailed = numberRecordsFailed jobStatus \<rparr>)))))"

text \<open>The \<open>catch\<close> clause wraps the message of whatever was raised.\<close>

definition performBulkUpload :: "remote \<Rightarrow> string \<Rightarrow> string \<Rightarrow> string \<Rightarrow> error + uploadOutcome" where
  "performBulkUpload r objectName csvText operation =
     (case bulkUploadSteps r objectName csvText operation of
        Inl (Error message) \<Rightarrow> Inl (Error (''Bulk upload failed: '' @ message))
      | Inr outcome \<Rightarrow> Inr outcome)"

section \<open>The mapping table as a shared object (csv-processor.js)\<close>

text \<open>
  \<open>this.mappings\<close> is a reference to an object that callers can reach and mutate.  The
  store holds the mapping-table objects; an address is a position in it, and allocation
  appends.  The processor holds the address of its mapping table.
\<close>

type_synonym addr = nat
type_synonym store = "string jsobj list"

record processor =
  csvData :: "row list option"
  csvHeaders :: "string list"
  rowCount :: nat
  mappings :: addr

definition alloc :: "store \<Rightarrow> string jsobj \<Rightarrow> addr \<times> store" where
  "alloc st obj = (length st, st @ [obj])"

text \<open>\<open>setMapping\<close>: \<open>this.mappings[csvField] = salesforceField\<close>.\<close>

definition setMapping :: "store \<Rightarrow> processor \<Rightarrow> string \<Rightarrow> string \<Rightarrow> store" where
  "setMapping st this csvField salesforceField =
     st[mappings this := setProp (st ! mappings this) csvField salesforceField]"

text \<open>
  \<open>getMappings\<close>: \<open>{ ...this.mappings }\<close> allocates a new object and defines on it the own
  properties of the mapping table, in enumeration order.
\<close>

definition getMappings :: "store \<Rightarrow> processor \<Rightarrow> addr \<times> store" where
  "getMappings st this = alloc st (ownEntries (st ! mappings this))"

text \<open>The methods that read the mapping table, on a processor in a store.\<close>

definition validateMappingsOf :: "store \<Rightarrow> processor \<Rightarrow> targetField list \<Rightarrow> string list" where
  "validateMappingsOf st this salesforceFields =
     validateMappings (st ! mappings this) salesforceFields"

definition generateMappedCSVOf :: "store \<Rightarrow> processor \<Rightarrow> error + string" where
  "generateMappedCSVOf st this = generateMappedCSV (csvData this) (st ! mappings this)"

text \<open>What a caller can do to an object it holds: assign a property or delete one.\<close>

datatype mutation = Assign string string | Delete string

fun mutate :: "store \<Rightarrow> addr \<Rightarrow> mutation \<Rightarrow> store" where
  "mutate st a (Assign key v) = st[a := setProp (st ! a) key v]"
| "mutate st a (Delete key) = st[a := deleteProp (st ! a) key]"

definition mutateAll :: "store \<Rightarrow> addr \<Rightarrow> mutation list \<Rightarrow> store" where
  "mutateAll st a ms = foldl (\<lambda>s m. mutate s a m) st ms"


section \<open>Auxiliary notions for the proofs\<close>

text \<open>A string that \<open>trim\<close> leaves alone: empty, or with no white space at either end.\<close>

definition trimmed :: "string \<Rightarrow> bool" where
  "trimmed s = (s = [] \<or> (\<not> isWhiteSpace (hd s) \<and> \<not> isWhiteSpace (last s)))"

text \<open>
  The non-blank values appearing in a column, over all rows of the document, in row order
  (the spec's wording for what the type inferrer samples from): the cells that the rows
  hold under the header, the blank ones left out.
\<close>

definition columnNonBlankValues :: "row list \<Rightarrow> string \<Rightarrow> string list" where
  "columnNonBlankValues rows csvHeader =
     filter nonBlank (List.map_filter (\<lambda>row. ownProp row csvHeader) rows)"

text \<open>A row holds a non-blank cell under the header.\<close>

definition hasNonBlankCell :: "string \<Rightarrow> row \<Rightarrow> bool" where
  "hasNonBlankCell csvHeader row =
     (case ownProp row csvHeader of None \<Rightarrow> False | Some s \<Rightarrow> nonBlank s)"

text \<open>A read of the header from the row finds nothing on \<open>Object.prototype\<close>.\<close>

definition readsOwnOrNothing :: "string \<Rightarrow> row \<Rightarrow> bool" where
  "readsOwnOrNothing csvHeader row =
     (case getProp row csvHeader of Inherited k \<Rightarrow> False | Undefined \<Rightarrow> True | Value s \<Rightarrow> True)"

text \<open>
  A remote service for the examples: every request succeeds, and the job reports
  \<open>InProgress\<close> until the status request number \<open>k\<close> (counted from 1), which reports
  \<open>JobComplete\<close>, as do all later ones.
\<close>

definition statusCompletingAt :: "nat \<Rightarrow> nat \<Rightarrow> error + jobStatus" where
  "statusCompletingAt k n =
     Inr \<lparr> state = (if n + 1 < k then ''InProgress'' else ''JobComplete''),
           numberRecordsProcessed = 100, numberRecordsFailed = 5 \<rparr>"

definition remoteCompletingAt :: "nat \<Rightarrow> remote" where
  "remoteCompletingAt k =
     \<lparr> createBulkJob = (\<lambda>objectName operation. Inr ''7501''),
       uploadBulkData = (\<lambda>job csvText. Inr ()),
       closeBulkJob = (\<lambda>job. Inr ()),
       getBulkJobStatus = (\<lambda>job. statusCompletingAt k),
       getBulkJobResults = (\<lambda>job. Inr \<lparr> successful = ''ok'', failed = ''ko'' \<rparr>) \<rparr>"

text \<open>
  The mapped target field identifiers ordered by the original CSV column order (the spec's
  wording for the header row of the payload): for each header in turn, its target if it
  has one.
\<close>

definition mappedTargetsInColumnOrder :: "string list \<Rightarrow> string jsobj \<Rightarrow> string list" where
  "mappedTargetsInColumnOrder hs m = List.map_filter (ownProp m) hs"

text \<open>
  The score that \<open>generateMappingSuggestions\<close> computes for a header and a field (it
  normalizes the header and passes it on to \<open>calculateFieldMatchScore\<close>, which normalizes
  again), and the highest score of a header over a list of fields, 0 when there is none
  above it.
\<close>

definition headerScore :: "string \<Rightarrow> targetField \<Rightarrow> real" where
  "headerScore csvHeader sfField =
     calculateFieldMatchScore (normalizeFieldName csvHeader) sfField"

definition highestScore :: "string \<Rightarrow> targetField list \<Rightarrow> real" where
  "highestScore csvHeader salesforceFields =
     Max (insert 0 (set (map (headerScore csvHeader) salesforceFields)))"

section \<open>Properties of the tokenizer\<close>

lemma split_not_Nil: "split sep s \<noteq> []"
  by (induction s) (auto split: list.splits)

text \<open>
  The scan inside a quoted field: the doubled quotes of the encoding are read back as
  single quotes, and the closing quote ends the field when no quote follows it.
\<close>

lemma scan_quoted_body:
  "rest = [] \<or> hd rest \<noteq> DQUOTE \<Longrightarrow>
   parseCSVLine_scan (doubleQuotes v @ DQUOTE # rest) True cur res
   = parseCSVLine_scan rest False (cur @ v) res"
proof (induction v arbitrary: cur)
  case Nil
  then show ?case by (cases rest) (simp_all add: doubleQuotes_def)
next
  case (Cons c v)
  have dq: "doubleQuotes (c # v) = (if c = DQUOTE then [DQUOTE, DQUOTE] else [c]) @ doubleQuotes v"
    by (simp add: doubleQuotes_def)
  show ?case
  proof (cases "c = DQUOTE")
    case True
    then show ?thesis using Cons.IH [OF Cons.prems, of "cur @ [DQUOTE]"]
      by (simp add: doubleQuotes_def)
  next
    case False
    then show ?thesis using Cons.IH [OF Cons.prems, of "cur @ [c]"] by (simp add: dq)
  qed
qed

lemma scan_enclosed:
  "rest = [] \<or> hd rest \<noteq> DQUOTE \<Longrightarrow>
   parseCSVLine_scan (encloseInQuotes v @ rest) False [] res
   = parseCSVLine_scan rest False v res"
proof -
  assume r: "rest = [] \<or> hd rest \<noteq> DQUOTE"
  have ne: "doubleQuotes v @ DQUOTE # rest \<noteq> []" by simp
  then obtain d ds where d: "doubleQuotes v @ DQUOTE # rest = d # ds"
    by (cases "doubleQuotes v @ DQUOTE # rest") auto
  have "parseCSVLine_scan (encloseInQuotes v @ rest) False [] res
        = parseCSVLine_scan (DQUOTE # (doubleQuotes v @ DQUOTE # rest)) False [] res"
    by (simp add: encloseInQuotes_def)
  also have "\<dots> = parseCSVLine_scan (doubleQuotes v @ DQUOTE # rest) True [] res"
    by (simp add: d)
  also have "\<dots> = parseCSVLine_scan rest False ([] @ v) res"
    by (rule scan_quoted_body [OF r])
  finally show ?thesis by simp
qed

lemma parseCSVLine_encloseInQuotes: "parseCSVLine (encloseInQuotes v) = [trim v]"
  using scan_enclosed [of "[]" v "[]"] by (simp add: parseCSVLine_def)

lemma scan_plain:
  "COMMA \<notin> set v \<Longrightarrow> DQUOTE \<notin> set v \<Longrightarrow>
   parseCSVLine_scan (v @ rest) False cur res = parseCSVLine_scan rest False (cur @ v) res"
  by (induction v arbitrary: cur) auto

lemma includesStr_single: "includesStr s [c] \<longleftrightarrow> c \<in> set s"
  by (induction s) auto

lemma scan_escapeValue:
  "rest = [] \<or> hd rest \<noteq> DQUOTE \<Longrightarrow>
   parseCSVLine_scan (escapeValue v @ rest) False [] res = parseCSVLine_scan rest False v res"
  using scan_enclosed [of rest v res] scan_plain [of v rest "[]" res]
  by (auto simp: escapeValue_def includesStr_single)

lemma parseCSVLine_escapeValue: "parseCSVLine (escapeValue v) = [trim v]"
  using scan_escapeValue [of "[]" v "[]"] by (simp add: parseCSVLine_def)

lemma scan_joined:
  "vs \<noteq> [] \<Longrightarrow>
   parseCSVLine_scan (join [COMMA] (map escapeValue vs)) False [] res = res @ map trim vs"
proof (induction vs arbitrary: res rule: induct_list012)
  case 1
  then show ?case by simp
next
  case (2 x)
  then show ?case using scan_escapeValue [of "[]" x res] by simp
next
  case (3 x y zs)
  have "parseCSVLine_scan (join [COMMA] (map escapeValue (x # y # zs))) False [] res
      = parseCSVLine_scan (escapeValue x @ COMMA # join [COMMA] (map escapeValue (y # zs))) False [] res"
    by simp
  also have "\<dots> = parseCSVLine_scan (COMMA # join [COMMA] (map escapeValue (y # zs))) False x res"
    by (rule scan_escapeValue) simp
  also have "\<dots> = parseCSVLine_scan (join [COMMA] (map escapeValue (y # zs))) False [] (res @ [trim x])"
    by simp
  also have "\<dots> = (res @ [trim x]) @ map trim (y # zs)"
    by (rule "3.IH"(2)) simp
  finally show ?case by simp
qed

text \<open>
  C2.  The claim: for every raw input text that is empty after trimming, the CSV tokenizer
  fails with a ParseError reporting an empty file, rather than returning a parsed document.
  The code does not: splitting the trimmed text never gives the empty array, so the test
  \<open>lines.length === 0\<close> never holds.  On the empty text, and on a text of white space only,
  \<open>parseCSVText\<close> returns a document with the single header \<open>''\<close> and no rows; on no text at
  all does it raise an error.
\<close>

theorem parseCSVText_empty_input_is_accepted:
  "parseCSVText [] = Inr \<lparr> headers = [[]], data = [] \<rparr>
   \<and> parseCSVText [CHR 0x20, LF, CHR 0x09, CHR 0x0D, LF] = Inr \<lparr> headers = [[]], data = [] \<rparr>
   \<and> (\<forall>csvText. \<exists>doc. parseCSVText csvText = Inr doc)"
  by (simp add: parseCSVText_def trim_def parseCSVLine_def isWhiteSpace_def split_not_Nil Let_def)

text \<open>
  C7.  Tokenizing the literal line \<open>"a,b""c"\<close> yields the single cell \<open>a,b"c\<close>, and
  re-serializing that cell gives the same literal again, also as the data line of the
  payload generated for a one-column document.
\<close>

theorem quoting_example_roundtrip:
  \<open>parseCSVLine ''"a,b""c"'' = [''a,b"c'']
   \<and> escapeValue (formatValue ''a,b"c'') = ''"a,b""c"''
   \<and> generateMappedCSV (Some [[(''col'', ''a,b"c'')]]) [(''col'', ''Field'')]
       = Inr (''Field'' @ [LF] @ ''"a,b""c"'')\<close>
  apply (intro conjI)
    apply (simp add: parseCSVLine_def trim_def isWhiteSpace_def)
   apply (simp add: escapeValue_def formatValue_def trim_def isWhiteSpace_def Let_def
      toLowerCase_def toLowerChar_def isPhoneChar_def isDigit_def booleanValues_def
      encloseInQuotes_def doubleQuotes_def)
  apply (simp add: generateMappedCSV_def objectKeys_def objectValues_def ownEntries_def
      isArrayIndex_def isDigit_def mappedRow_def mappedCell_def getProp_def ownProp_def
      orEmpty_def stringOf_def
      escapeValue_def formatValue_def trim_def isWhiteSpace_def Let_def toLowerCase_def
      toLowerChar_def isPhoneChar_def booleanValues_def encloseInQuotes_def doubleQuotes_def)
  done

section \<open>Properties of trimming and formatting\<close>

lemma trim_trimmed: "trimmed s \<Longrightarrow> trim s = s"
proof (cases s)
  case Nil
  then show ?thesis by (simp add: trim_def)
next
  case (Cons c cs)
  assume "trimmed s"
  with Cons have h: "\<not> isWhiteSpace (hd s)" and l: "\<not> isWhiteSpace (last s)"
    by (auto simp: trimmed_def)
  have 1: "dropWhile isWhiteSpace s = s" using Cons h by simp
  obtain x xs where r: "rev s = x # xs" using Cons by (cases "rev s") auto
  then have "x = last s" using Cons by (metis hd_rev list.sel(1))
  then have "dropWhile isWhiteSpace (x # xs) = x # xs" using l by simp
  then have 2: "dropWhile isWhiteSpace (rev s) = rev s" by (simp only: r)
  show ?thesis by (simp add: trim_def 1 2)
qed

lemma trimmed_trim: "trimmed (trim s)"
proof -
  define a where "a = dropWhile isWhiteSpace s"
  define b where "b = dropWhile isWhiteSpace (rev a)"
  have t: "trim s = rev b" by (simp add: trim_def a_def b_def)
  show ?thesis
  proof (cases "b = []")
    case True
    then show ?thesis by (simp add: t trimmed_def)
  next
    case False
    then have hb: "\<not> isWhiteSpace (hd b)" unfolding b_def by (rule hd_dropWhile)
    from False have "rev a \<noteq> []" unfolding b_def by auto
    then have an: "a \<noteq> []" by simp
    then have ha: "\<not> isWhiteSpace (hd a)" unfolding a_def by (rule hd_dropWhile)
    obtain p where p: "rev a = p @ b"
      unfolding b_def by (metis takeWhile_dropWhile_id)
    then have "last b = last (rev a)" using False by simp
    also have "\<dots> = hd a" using an by (simp add: last_rev)
    finally have lb: "\<not> isWhiteSpace (last b)" using ha by simp
    show ?thesis using False hb lb by (simp add: t trimmed_def hd_rev last_rev)
  qed
qed

lemma trim_idem: "trim (trim s) = trim s"
  by (rule trim_trimmed [OF trimmed_trim])

lemma set_trim: "set (trim s) \<subseteq> set s"
proof
  fix x assume "x \<in> set (trim s)"
  then have "x \<in> set (dropWhile isWhiteSpace (rev (dropWhile isWhiteSpace s)))"
    by (simp add: trim_def)
  then have "x \<in> set (rev (dropWhile isWhiteSpace s))" by (rule set_dropWhileD)
  then have "x \<in> set (dropWhile isWhiteSpace s)" by simp
  then show "x \<in> set s" by (rule set_dropWhileD)
qed

lemma char_eq_code: "(c = d) = ((of_char c :: nat) = of_char d)"
  by simp

lemma isWhiteSpace_code:
  "isWhiteSpace c = ((of_char c :: nat) \<in> {9, 10, 11, 12, 13, 32, 160})"
  unfolding isWhiteSpace_def by (simp add: char_eq_code [of c])

lemma isWhiteSpace_toLowerChar: "isWhiteSpace (toLowerChar c) = isWhiteSpace c"
  by (auto simp: isWhiteSpace_code toLowerChar_def Let_def)

lemma trimmed_toLowerCase: "trimmed s \<Longrightarrow> trimmed (toLowerCase s)"
  by (auto simp: trimmed_def toLowerCase_def hd_map last_map isWhiteSpace_toLowerChar)

lemma trimmed_no_white: "list_all (\<lambda>c. \<not> isWhiteSpace c) s \<Longrightarrow> trimmed s"
  by (auto simp: trimmed_def list_all_iff)

lemma isDigit_not_white: "isDigit c \<Longrightarrow> \<not> isWhiteSpace c"
  by (auto simp: isWhiteSpace_code isDigit_def Let_def)

lemma trimmed_phone_digits: "trimmed (filter (\<lambda>c. isDigit c \<or> c = CHR ''+'') s)"
proof (rule trimmed_no_white)
  have "\<not> isWhiteSpace (CHR ''+'')" by (simp add: isWhiteSpace_def)
  then show "list_all (\<lambda>c. \<not> isWhiteSpace c) (filter (\<lambda>c. isDigit c \<or> c = CHR ''+'') s)"
    by (auto simp: list_all_iff dest: isDigit_not_white)
qed

lemma booleanMap_values:
  "ownProp booleanMap k = Some b \<Longrightarrow> b = ''true'' \<or> b = ''false''"
  by (auto simp: ownProp_def booleanMap_def split: if_splits)

lemma trimmed_formatValue: "trimmed (formatValue v)"
proof -
  define value1 where "value1 = trim v"
  define value2 where "value2 = (if includesStr value1 ''@'' then toLowerCase value1 else value1)"
  define value3 where "value3 = (if value2 \<noteq> [] \<and> list_all isPhoneChar value2 \<and> length value2 \<ge> 10
                    then filter (\<lambda>c. isDigit c \<or> c = CHR ''+'') value2 else value2)"
  have 1: "trimmed value1" unfolding value1_def by (rule trimmed_trim)
  have 2: "trimmed value2" unfolding value2_def using 1 by (simp add: trimmed_toLowerCase)
  have 3: "trimmed value3" unfolding value3_def using 2 by (simp add: trimmed_phone_digits)
  have t: "trimmed ''true''" "trimmed ''false''" by (simp_all add: trimmed_def isWhiteSpace_def)
  have f: "formatValue v = (if toLowerCase value3 \<in> set booleanValues
         then (case ownProp booleanMap (toLowerCase value3) of Some b \<Rightarrow> b | None \<Rightarrow> value3)
         else value3)"
    by (simp only: formatValue_def Let_def value1_def value2_def value3_def)
  show ?thesis using 3 t booleanMap_values [of "toLowerCase value3"]
    by (auto simp: f split: option.splits)
qed

lemma trim_formatValue: "trim (formatValue v) = formatValue v"
  by (rule trim_trimmed [OF trimmed_formatValue])

section \<open>Where the characters of a parsed cell come from\<close>

text \<open>
  The document tokenizer cuts the text at every line feed before the quote-aware scan, and a
  field holds only characters of its line: it always returns a document, and no cell of
  that document contains a line feed.
\<close>

lemma split_no_sep: "l \<in> set (split sep s) \<Longrightarrow> sep \<notin> set l"
proof (induction s arbitrary: l)
  case Nil
  then show ?case by simp
next
  case (Cons c cs)
  show ?case
  proof (cases "c = sep")
    case True
    with Cons show ?thesis by auto
  next
    case False
    obtain x xs where x: "split sep cs = x # xs"
      using split_not_Nil [of sep cs] by (cases "split sep cs") auto
    with Cons.prems False have "l = c # x \<or> l \<in> set xs" by simp
    then show ?thesis using Cons.IH x False by auto
  qed
qed

lemma scan_chars:
  "f \<in> set (parseCSVLine_scan line q cur res) \<Longrightarrow>
   f \<in> set res \<or> set f \<subseteq> set line \<union> set cur"
proof (induction line q cur res rule: parseCSVLine_scan.induct)
  case (1 inQuotes currentField result)
  then show ?case using set_trim [of currentField] by auto
next
  case (2 c cs inQuotes currentField result)
  show ?case
  proof (cases "c = DQUOTE")
    case True
    show ?thesis
    proof (cases cs)
      case Nil
      with True 2 show ?thesis by auto
    next
      case (Cons d ds)
      show ?thesis
      proof (cases "inQuotes \<and> d = DQUOTE")
        case True
        with \<open>c = DQUOTE\<close> Cons 2 show ?thesis by auto
      next
        case False
        with \<open>c = DQUOTE\<close> Cons 2 show ?thesis by auto
      qed
    qed
  next
    case False
    show ?thesis
    proof (cases "c = COMMA \<and> \<not> inQuotes")
      case True
      with False 2 set_trim [of currentField] show ?thesis by auto
    next
      case False
      with \<open>c \<noteq> DQUOTE\<close> 2 show ?thesis by auto
    qed
  qed
qed

lemma parseCSVLine_chars: "f \<in> set (parseCSVLine line) \<Longrightarrow> set f \<subseteq> set line"
  using scan_chars [of f line False "[]" "[]"] by (simp add: parseCSVLine_def)

lemma set_setProp: "set (setProp obj k v) \<subseteq> insert (k, v) (set obj)"
  by (induction obj) auto

lemma cellAt_chars: "set (cellAt row i) \<subseteq> \<Union> (set ` set row)"
  using nth_mem by (fastforce simp: cellAt_def)

lemma makeRowObject_values:
  "p \<in> set (makeRowObject hs row) \<Longrightarrow> set (snd p) \<subseteq> \<Union> (set ` set row)"
proof -
  have "\<And>obj. (\<forall>p \<in> set obj. set (snd p) \<subseteq> \<Union> (set ` set row)) \<Longrightarrow>
      (\<forall>p \<in> set (foldl (\<lambda>rowObject (header, index). setProp rowObject header (cellAt row index))
                       obj zs). set (snd p) \<subseteq> \<Union> (set ` set row))" for zs
  proof (induction zs)
    case Nil
    then show ?case by simp
  next
    case (Cons z zs)
    obtain h i where z: "z = (h, i)" by (cases z)
    have "\<forall>p \<in> set (setProp obj h (cellAt row i)). set (snd p) \<subseteq> \<Union> (set ` set row)"
      using Cons.prems set_setProp [of obj h "cellAt row i"] cellAt_chars [of row i]
      by fastforce
    then show ?case using Cons.IH z by simp
  qed
  from this [of "[]" "zip hs [0 ..< length hs]"]
  show "p \<in> set (makeRowObject hs row) \<Longrightarrow> set (snd p) \<subseteq> \<Union> (set ` set row)"
    by (simp add: makeRowObject_def)
qed

lemma parseCSVText_cells_without_line_feed:
  "\<exists>doc. parseCSVText csvText = Inr doc
     \<and> list_all (\<lambda>row. list_all (\<lambda>p. LF \<notin> set (snd p)) row) (data doc)"
proof -
  define lines where "lines = split LF (trim csvText)"
  define hs where "hs = parseCSVLine (hd lines)"
  define rows where "rows = map (\<lambda>l. makeRowObject hs (parseCSVLine l))
                     (filter (\<lambda>l. trim l \<noteq> []) (tl lines))"
  have ne: "lines \<noteq> []" unfolding lines_def by (rule split_not_Nil)
  have doc: "parseCSVText csvText = Inr \<lparr> headers = hs, data = rows \<rparr>"
    using ne by (simp add: parseCSVText_def Let_def lines_def hs_def rows_def)
  have "LF \<notin> set (snd p)" if r: "r \<in> set rows" and p: "p \<in> set r" for r p
  proof -
    from r obtain l where l: "l \<in> set (tl lines)" and rl: "r = makeRowObject hs (parseCSVLine l)"
      unfolding rows_def by auto
    from l ne have "l \<in> set lines" by (cases lines) auto
    then have nl: "LF \<notin> set l" unfolding lines_def by (rule split_no_sep)
    have "set (snd p) \<subseteq> \<Union> (set ` set (parseCSVLine l))"
      using p rl makeRowObject_values by blast
    also have "\<dots> \<subseteq> set l" using parseCSVLine_chars by blast
    finally show ?thesis using nl by blast
  qed
  then have "list_all (\<lambda>row. list_all (\<lambda>p. LF \<notin> set (snd p)) row) rows"
    by (auto simp: list_all_iff)
  with doc show ?thesis by simp
qed

section \<open>Properties of reads and writes of objects\<close>

lemma getProp_cases:
  "getProp obj key =
     (case ownProp obj key of
        Some v \<Rightarrow> Value v
      | None \<Rightarrow> if key \<in> set objectPrototypeNames then Inherited key else Undefined)"
  by (simp add: getProp_def)

lemma ownProp_setProp:
  "ownProp (setProp obj k v) k' =
     (if k' = k \<and> (k \<noteq> ''__proto__'' \<or> ownProp obj k \<noteq> None) then Some v
      else ownProp obj k')"
proof (induction obj)
  case Nil
  then show ?case by (simp add: ownProp_def)
next
  case (Cons p ps)
  obtain a b where p: "p = (a, b)" by (cases p)
  show ?case
  proof (cases "a = k")
    case True
    then show ?thesis by (simp add: p ownProp_def)
  next
    case False
    have "ownProp (setProp (p # ps) k v) k'
          = (if k' = a then Some b else ownProp (setProp ps k v) k')"
      using False by (simp add: p ownProp_def)
    also have "\<dots> = (if k' = a then Some b
                     else if k' = k \<and> (k \<noteq> ''__proto__'' \<or> ownProp ps k \<noteq> None) then Some v
                     else ownProp ps k')"
      by (simp only: Cons.IH)
    also have "\<dots> = (if k' = k \<and> (k \<noteq> ''__proto__'' \<or> ownProp (p # ps) k \<noteq> None) then Some v
                     else ownProp (p # ps) k')"
      using False by (simp add: p ownProp_def)
    finally show ?thesis .
  qed
qed

section \<open>C1: the enclosing-quote encoding\<close>

text \<open>
  C1, as claimed: for every cell value containing embedded commas, double quotes or
  newlines, tokenizing a CSV line that encodes the value with enclosing quotes recovers the
  value exactly, and re-serializing the value gives an encoding that tokenizes back to it,
  also for values with embedded newlines.  The code does otherwise at three places.  The
  value \<open>" a,b"\<close> (a leading blank) comes back as \<open>"a,b"\<close>, since every field is trimmed.  The
  text whose second line encodes the value \<open>a LF b\<close> is cut at the line feed inside the quotes
  and gives two rows, \<open>a\<close> and \<open>b\<close>.  Re-serializing \<open>A@b,c\<close> encodes the formatted value
  \<open>a@b,c\<close>, which is what the encoding tokenizes back to.
\<close>

theorem enclosing_quote_roundtrip_fails:
  \<open>parseCSVLine (encloseInQuotes '' a,b'') \<noteq> ['' a,b'']
   \<and> parseCSVText (''h'' @ [LF] @ encloseInQuotes (''a'' @ [LF] @ ''b''))
       = Inr \<lparr> headers = [''h''], data = [[(''h'', ''a'')], [(''h'', ''b'')]] \<rparr>
   \<and> parseCSVLine (escapeValue (formatValue ''A@b,c'')) \<noteq> [''A@b,c'']\<close>
  by code_simp

text \<open>
  C1, amended.  For every cell value \<open>v\<close>, whatever commas, double quotes or newline
  characters it contains, the line tokenizer applied to the enclosing-quote encoding of \<open>v\<close>
  returns exactly one cell, \<open>v\<close> with the white space at its two ends removed; so it returns
  \<open>v\<close> itself when \<open>v\<close> has no white space at either end.  The re-serializer encodes the
  formatted value \<open>formatValue v\<close>, and the line tokenizer applied to that encoding returns
  exactly \<open>formatValue v\<close>.
\<close>

theorem enclosing_quote_roundtrip:
  "parseCSVLine (encloseInQuotes v) = [trim v]
   \<and> (trimmed v \<longrightarrow> parseCSVLine (encloseInQuotes v) = [v])
   \<and> parseCSVLine (escapeValue (formatValue v)) = [formatValue v]"
proof (intro conjI impI)
  show "parseCSVLine (encloseInQuotes v) = [trim v]"
    by (rule parseCSVLine_encloseInQuotes)
  show "parseCSVLine (encloseInQuotes v) = [v]" if "trimmed v"
    using that by (simp add: parseCSVLine_encloseInQuotes trim_trimmed)
  show "parseCSVLine (escapeValue (formatValue v)) = [formatValue v]"
    by (simp add: parseCSVLine_escapeValue trim_formatValue)
qed

theorem enclosing_quote_roundtrip_witness:
  \<open>trimmed (''a,b"c'' @ [LF] @ ''d'')
   \<and> parseCSVLine (encloseInQuotes (''a,b"c'' @ [LF] @ ''d'')) = [''a,b"c'' @ [LF] @ ''d'']
   \<and> parseCSVLine (escapeValue (formatValue '' A@b,c '')) = [''a@b,c'']\<close>
proof -
  have t: \<open>trimmed (''a,b"c'' @ [LF] @ ''d'')\<close>
    by (simp add: trimmed_def isWhiteSpace_def)
  have f: \<open>formatValue '' A@b,c '' = ''a@b,c''\<close>
    by code_simp
  have a: \<open>parseCSVLine (encloseInQuotes (''a,b"c'' @ [LF] @ ''d'')) = [''a,b"c'' @ [LF] @ ''d'']\<close>
    using t enclosing_quote_roundtrip [of \<open>''a,b"c'' @ [LF] @ ''d''\<close>] by blast
  have b: \<open>parseCSVLine (escapeValue (formatValue '' A@b,c '')) = [formatValue '' A@b,c '']\<close>
    using enclosing_quote_roundtrip [of \<open>'' A@b,c ''\<close>] by blast
  have c: \<open>parseCSVLine (escapeValue (formatValue '' A@b,c '')) = [''a@b,c'']\<close>
    using b by (simp only: f)
  show ?thesis
    by (intro conjI) (rule t, rule a, rule c)
qed

section \<open>C3: the sample of the type inferrer\<close>

lemma readsOwnOrNothing_iff:
  "readsOwnOrNothing h row \<longleftrightarrow> ownProp row h \<noteq> None \<or> h \<notin> set objectPrototypeNames"
  by (auto simp: readsOwnOrNothing_def getProp_def split: option.splits)

lemma columnNonBlankValues_Nil: "columnNonBlankValues [] h = []"
  by (simp add: columnNonBlankValues_def List.map_filter_def)

lemma columnNonBlankValues_Cons:
  "columnNonBlankValues (row # rows) h =
     (case ownProp row h of
        None \<Rightarrow> columnNonBlankValues rows h
      | Some s \<Rightarrow> if nonBlank s then s # columnNonBlankValues rows h
                  else columnNonBlankValues rows h)"
  by (simp add: columnNonBlankValues_def List.map_filter_def split: option.splits)

lemma filterNonBlank_own:
  "list_all (readsOwnOrNothing h) rows \<Longrightarrow>
   filterNonBlank (map (\<lambda>row. getProp row h) rows) = Inr (columnNonBlankValues rows h)"
proof (induction rows)
  case Nil
  then show ?case by (simp add: columnNonBlankValues_Nil)
next
  case (Cons row rows)
  then have r: "readsOwnOrNothing h row" and rs: "list_all (readsOwnOrNothing h) rows"
    by simp_all
  have ih: "filterNonBlank (map (\<lambda>row. getProp row h) rows) = Inr (columnNonBlankValues rows h)"
    using rs by (rule Cons.IH)
  show ?case
  proof (cases "ownProp row h")
    case None
    then have "getProp row h = Undefined"
      using r by (simp add: readsOwnOrNothing_iff getProp_def)
    then show ?thesis using None ih by (simp add: columnNonBlankValues_Cons)
  next
    case (Some s)
    then have "getProp row h = Value s" by (simp add: getProp_def)
    then show ?thesis using Some ih by (simp add: columnNonBlankValues_Cons)
  qed
qed

lemma sampleValues_own:
  "list_all (readsOwnOrNothing h) (take 20 rows) \<Longrightarrow>
   sampleValues rows h = Inr (columnNonBlankValues (take 20 rows) h)"
  by (simp add: sampleValues_def filterNonBlank_own)

lemma columnNonBlankValues_append:
  "columnNonBlankValues (xs @ ys) h = columnNonBlankValues xs h @ columnNonBlankValues ys h"
  by (induction xs) (simp_all add: columnNonBlankValues_Nil columnNonBlankValues_Cons
        split: option.splits)

lemma length_columnNonBlankValues: "length (columnNonBlankValues rows h) \<le> length rows"
  by (induction rows) (simp_all add: columnNonBlankValues_Nil columnNonBlankValues_Cons
        split: option.splits)

lemma sample_length: "length (columnNonBlankValues (take 20 rows) h) \<le> 20"
  using length_columnNonBlankValues [of "take 20 rows" h] by simp

lemma columnNonBlankValues_split:
  "columnNonBlankValues rows h
   = columnNonBlankValues (take 20 rows) h @ columnNonBlankValues (drop 20 rows) h"
  using columnNonBlankValues_append [of "take 20 rows" "drop 20 rows" h] by simp

lemma sample_prefix:
  "prefix (columnNonBlankValues (take 20 rows) h) (columnNonBlankValues rows h)"
  using columnNonBlankValues_split [of rows h] by (metis prefixI)

lemma columnNonBlankValues_all:
  "list_all (hasNonBlankCell h) rows \<Longrightarrow>
   length (columnNonBlankValues rows h) = length rows"
  by (induction rows)
     (auto simp: columnNonBlankValues_Nil columnNonBlankValues_Cons hasNonBlankCell_def
        split: option.splits)

lemma sample_first_20:
  assumes "list_all (hasNonBlankCell h) (take 20 rows)"
  shows "columnNonBlankValues (take 20 rows) h = take 20 (columnNonBlankValues rows h)"
proof -
  have len: "length (columnNonBlankValues (take 20 rows) h) = min (length rows) 20"
    using columnNonBlankValues_all [OF assms] by simp
  show ?thesis
  proof (cases "20 \<le> length rows")
    case True
    then have "length (columnNonBlankValues (take 20 rows) h) = 20" using len by simp
    then show ?thesis by (subst columnNonBlankValues_split [of rows h]) simp
  next
    case False
    then have d: "drop 20 rows = []" and t: "take 20 rows = rows" by simp_all
    have "length (columnNonBlankValues rows h) \<le> 20"
      using length_columnNonBlankValues [of rows h] False by simp
    then show ?thesis by (simp add: t)
  qed
qed

lemma sample_empty_column:
  "columnNonBlankValues rows h = [] \<Longrightarrow> columnNonBlankValues (take 20 rows) h = []"
  using columnNonBlankValues_split [of rows h] by simp

lemma determineFieldType_empty_sample:
  "sampleValues rows h = Inr [] \<Longrightarrow> determineFieldType hst (Some rows) h = Inr defaultTextType"
  by (simp add: determineFieldType_def)

lemma ordinary_header_reads:
  "h \<notin> set objectPrototypeNames \<Longrightarrow> list_all (readsOwnOrNothing h) rows"
  by (simp add: list_all_iff readsOwnOrNothing_iff)


lemma rowObject_fold_owns:
  "ownProp obj h \<noteq> None \<or> (h \<in> set (map fst zs) \<and> h \<noteq> ''__proto__'') \<Longrightarrow>
   ownProp (foldl (\<lambda>rowObject (header, index). setProp rowObject header (cellAt row index))
              obj zs) h \<noteq> None"
proof (induction zs arbitrary: obj)
  case Nil
  then show ?case by simp
next
  case (Cons z zs)
  obtain k i where z: "z = (k, i)" by (cases z)
  have "ownProp (setProp obj k (cellAt row i)) h \<noteq> None
        \<or> (h \<in> set (map fst zs) \<and> h \<noteq> ''__proto__'')"
    using Cons.prems by (auto simp: z ownProp_setProp)
  then have "ownProp (foldl (\<lambda>rowObject (header, index).
                 setProp rowObject header (cellAt row index))
               (setProp obj k (cellAt row i)) zs) h \<noteq> None"
    by (rule Cons.IH)
  then show ?case by (simp add: z)
qed

lemma makeRowObject_owns:
  "h \<in> set hs \<Longrightarrow> h \<noteq> ''__proto__'' \<Longrightarrow> ownProp (makeRowObject hs row) h \<noteq> None"
proof -
  assume h: "h \<in> set hs" "h \<noteq> ''__proto__''"
  have "map fst (zip hs [0 ..< length hs]) = hs" by (rule map_fst_zip) simp
  then have "h \<in> set (map fst (zip hs [0 ..< length hs])) \<and> h \<noteq> ''__proto__''"
    using h by (simp only: simp_thms)
  then show ?thesis unfolding makeRowObject_def by (intro rowObject_fold_owns disjI2)
qed

lemma parsed_column_reads:
  assumes "parseCSVText csvText = Inr doc" and "h \<in> set (headers doc)" and "h \<noteq> ''__proto__''"
  shows "list_all (readsOwnOrNothing h) (data doc)"
proof -
  define lines where "lines = split LF (trim csvText)"
  define hs where "hs = parseCSVLine (hd lines)"
  define rows where "rows = map (\<lambda>l. makeRowObject hs (parseCSVLine l))
                     (filter (\<lambda>l. trim l \<noteq> []) (tl lines))"
  have ne: "lines \<noteq> []" unfolding lines_def by (rule split_not_Nil)
  have "parseCSVText csvText = Inr \<lparr> headers = hs, data = rows \<rparr>"
    using ne by (simp add: parseCSVText_def Let_def lines_def hs_def rows_def)
  with assms(1) have doc: "doc = \<lparr> headers = hs, data = rows \<rparr>" by simp
  then have h: "h \<in> set hs" using assms(2) by simp
  have "readsOwnOrNothing h r" if "r \<in> set rows" for r
  proof -
    from that obtain l where "r = makeRowObject hs (parseCSVLine l)"
      unfolding rows_def by auto
    then show ?thesis
      using makeRowObject_owns [OF h assms(3)] by (simp add: readsOwnOrNothing_iff)
  qed
  then show ?thesis by (simp add: doc list_all_iff)
qed

text \<open>
  Where a read does find something on \<open>Object.prototype\<close>: a document with a column
  \<open>__proto__\<close> has no such property in its rows, each row reads \<open>Object.prototype\<close> under
  that name, and the filter of the sample raises a TypeError.
\<close>

lemma proto_column_raises:
  "parseCSVText (''__proto__,b'' @ [LF] @ ''x,y'')
     = Inr \<lparr> headers = [''__proto__'', ''b''], data = [[(''b'', ''y'')]] \<rparr>
   \<and> determineFieldType hst (Some [[(''b'', ''y'')]]) ''__proto__''
     = Inl (Error ''TypeError: val.trim is not a function'')"
proof -
  have "parseCSVText (''__proto__,b'' @ [LF] @ ''x,y'')
     = Inr \<lparr> headers = [''__proto__'', ''b''], data = [[(''b'', ''y'')]] \<rparr>"
    by code_simp
  moreover have "sampleValues [[(''b'', ''y'')]] ''__proto__''
     = Inl (Error ''TypeError: val.trim is not a function'')"
    by code_simp
  ultimately show ?thesis by (simp add: determineFieldType_def)
qed

text \<open>
  C3, as claimed: for every parsed document and every column, the sample is exactly the
  first 20 non-blank values appearing in that column (fewer if the whole column has fewer),
  and the result is Text/255 when the column has no non-blank value.  The code takes the
  first 20 rows and then drops the blank cells (its comment: check first 20 rows).  With a
  blank cell in the first row and 20 rows with \<open>x\<close> after it, the sample has 19 values,
  while the column's first 20 non-blank values are 20.
\<close>

theorem sample_is_not_first_20_non_blank:
  "sampleValues
      ([(''c'', ''''), (''d'', ''1'')] # replicate 20 [(''c'', ''x''), (''d'', ''1'')]) ''c''
     = Inr (replicate 19 ''x'')
   \<and> take 20 (columnNonBlankValues
      ([(''c'', ''''), (''d'', ''1'')] # replicate 20 [(''c'', ''x''), (''d'', ''1'')]) ''c'')
      = replicate 20 ''x''
   \<and> sampleValues
      ([(''c'', ''''), (''d'', ''1'')] # replicate 20 [(''c'', ''x''), (''d'', ''1'')]) ''c''
     \<noteq> Inr (take 20 (columnNonBlankValues
      ([(''c'', ''''), (''d'', ''1'')] # replicate 20 [(''c'', ''x''), (''d'', ''1'')]) ''c''))"
  by code_simp

text \<open>
  C3, amended.  For every document and every column whose header reads, in each of the
  first 20 rows, a cell of the row or nothing (every header that is not a property name of
  \<open>Object.prototype\<close>, and in a parsed document every column but \<open>__proto__\<close>), the sample
  is exactly the non-blank values found in the first 20 rows of that column, in row order:
  at most 20 values, an initial segment of the column's non-blank values, and equal to the
  first 20 non-blank values of the column whenever none of the first 20 rows is blank in
  that column.  When the first 20 rows hold no non-blank value, in particular when the
  column has none at all, and when no document is loaded, the result is Text with length
  255.
\<close>

theorem sample_is_from_first_20_rows:
  "(list_all (readsOwnOrNothing h) (take 20 rows) \<longrightarrow>
      sampleValues rows h = Inr (columnNonBlankValues (take 20 rows) h)
      \<and> length (columnNonBlankValues (take 20 rows) h) \<le> 20
      \<and> prefix (columnNonBlankValues (take 20 rows) h) (columnNonBlankValues rows h)
      \<and> (list_all (hasNonBlankCell h) (take 20 rows)
           \<longrightarrow> sampleValues rows h = Inr (take 20 (columnNonBlankValues rows h)))
      \<and> (columnNonBlankValues (take 20 rows) h = []
           \<longrightarrow> determineFieldType hst (Some rows) h
               = Inr \<lparr> typeName = ''Text'', fieldLength = Some 255,
                       precision = None, scale = None \<rparr>)
      \<and> (columnNonBlankValues rows h = []
           \<longrightarrow> determineFieldType hst (Some rows) h
               = Inr \<lparr> typeName = ''Text'', fieldLength = Some 255,
                       precision = None, scale = None \<rparr>))
   \<and> determineFieldType hst None h
               = Inr \<lparr> typeName = ''Text'', fieldLength = Some 255,
                       precision = None, scale = None \<rparr>
   \<and> (h \<notin> set objectPrototypeNames \<longrightarrow> list_all (readsOwnOrNothing h) (take 20 rows))
   \<and> (parseCSVText csvText = Inr doc \<and> h \<in> set (headers doc) \<and> h \<noteq> ''__proto__''
        \<longrightarrow> list_all (readsOwnOrNothing h) (take 20 (data doc)))"
proof (intro conjI impI)
  assume own: "list_all (readsOwnOrNothing h) (take 20 rows)"
  show s: "sampleValues rows h = Inr (columnNonBlankValues (take 20 rows) h)"
    using own by (rule sampleValues_own)
  show "length (columnNonBlankValues (take 20 rows) h) \<le> 20" by (rule sample_length)
  show "prefix (columnNonBlankValues (take 20 rows) h) (columnNonBlankValues rows h)"
    by (rule sample_prefix)
  show "sampleValues rows h = Inr (take 20 (columnNonBlankValues rows h))"
    if "list_all (hasNonBlankCell h) (take 20 rows)"
    using sample_first_20 [OF that] s by simp
  show "determineFieldType hst (Some rows) h
               = Inr \<lparr> typeName = ''Text'', fieldLength = Some 255,
                       precision = None, scale = None \<rparr>"
    if "columnNonBlankValues (take 20 rows) h = []"
    using that s determineFieldType_empty_sample [of rows h hst]
    by (simp add: defaultTextType_def)
  show "determineFieldType hst (Some rows) h
               = Inr \<lparr> typeName = ''Text'', fieldLength = Some 255,
                       precision = None, scale = None \<rparr>"
    if "columnNonBlankValues rows h = []"
    using sample_empty_column [OF that] s determineFieldType_empty_sample [of rows h hst]
    by (simp add: defaultTextType_def)
next
  show "determineFieldType hst None h
               = Inr \<lparr> typeName = ''Text'', fieldLength = Some 255,
                       precision = None, scale = None \<rparr>"
    by (simp add: determineFieldType_def defaultTextType_def)
next
  assume "h \<notin> set objectPrototypeNames"
  then show "list_all (readsOwnOrNothing h) (take 20 rows)" by (rule ordinary_header_reads)
next
  assume a: "parseCSVText csvText = Inr doc \<and> h \<in> set (headers doc) \<and> h \<noteq> ''__proto__''"
  then have "list_all (readsOwnOrNothing h) (data doc)"
    using parsed_column_reads [of csvText doc h] by simp
  then show "list_all (readsOwnOrNothing h) (take 20 (data doc))"
    by (metis append_take_drop_id list_all_append)
qed

theorem sample_is_from_first_20_rows_witness:
  "list_all (readsOwnOrNothing ''c'') (take 20 (replicate 25 [(''c'', ''x''), (''d'', ''1'')]))
   \<and> list_all (hasNonBlankCell ''c'') (take 20 (replicate 25 [(''c'', ''x''), (''d'', ''1'')]))
   \<and> sampleValues (replicate 25 [(''c'', ''x''), (''d'', ''1'')]) ''c''
       = Inr (take 20 (columnNonBlankValues (replicate 25 [(''c'', ''x''), (''d'', ''1'')]) ''c''))
   \<and> columnNonBlankValues (replicate 25 [(''c'', ''x''), (''d'', ''1'')]) ''c''
       = replicate 25 ''x''
   \<and> list_all (readsOwnOrNothing ''c'')
         (take 20 (replicate 20 [(''c'', '' ''), (''d'', ''1'')]
                   @ replicate 5 [(''c'', ''x''), (''d'', ''1'')]))
   \<and> columnNonBlankValues
         (take 20 (replicate 20 [(''c'', '' ''), (''d'', ''1'')]
                   @ replicate 5 [(''c'', ''x''), (''d'', ''1'')])) ''c'' = []
   \<and> columnNonBlankValues
         (replicate 20 [(''c'', '' ''), (''d'', ''1'')]
          @ replicate 5 [(''c'', ''x''), (''d'', ''1'')]) ''c'' = replicate 5 ''x''
   \<and> determineFieldType \<lparr> isNumber = (\<lambda>val. False), isDate = (\<lambda>val. False) \<rparr>
         (Some (replicate 20 [(''c'', '' ''), (''d'', ''1'')]
                @ replicate 5 [(''c'', ''x''), (''d'', ''1'')])) ''c''
       = Inr \<lparr> typeName = ''Text'', fieldLength = Some 255,
               precision = None, scale = None \<rparr>"
proof -
  define full :: "row list" where "full = replicate 25 [(''c'', ''x''), (''d'', ''1'')]"
  define late :: "row list" where
    "late = replicate 20 [(''c'', '' ''), (''d'', ''1'')]
            @ replicate 5 [(''c'', ''x''), (''d'', ''1'')]"
  define hst where "hst = \<lparr> isNumber = (\<lambda>val. False), isDate = (\<lambda>val. False) \<rparr>"
  have 1: "list_all (readsOwnOrNothing ''c'') (take 20 full)"
    unfolding full_def by code_simp
  have 2: "list_all (hasNonBlankCell ''c'') (take 20 full)"
    unfolding full_def by code_simp
  have 4: "columnNonBlankValues full ''c'' = replicate 25 ''x''"
    unfolding full_def by code_simp
  have 5: "list_all (readsOwnOrNothing ''c'') (take 20 late)"
    unfolding late_def by code_simp
  have 6: "columnNonBlankValues (take 20 late) ''c'' = []"
    unfolding late_def by code_simp
  have 7: "columnNonBlankValues late ''c'' = replicate 5 ''x''"
    unfolding late_def by code_simp
  note onFull = sample_is_from_first_20_rows [of "''c''" full hst, THEN conjunct1, THEN mp, OF 1]
  note onLate = sample_is_from_first_20_rows [of "''c''" late hst, THEN conjunct1, THEN mp, OF 5]
  have 3: "sampleValues full ''c'' = Inr (take 20 (columnNonBlankValues full ''c''))"
    using onFull [THEN conjunct2, THEN conjunct2, THEN conjunct2, THEN conjunct1] 2
    by (rule mp)
  have 8: "determineFieldType hst (Some late) ''c''
       = Inr \<lparr> typeName = ''Text'', fieldLength = Some 255,
               precision = None, scale = None \<rparr>"
    using onLate [THEN conjunct2, THEN conjunct2, THEN conjunct2, THEN conjunct2,
        THEN conjunct1] 6
    by (rule mp)
  show ?thesis
    by (intro conjI)
       (rule 1 [unfolded full_def], rule 2 [unfolded full_def], rule 3 [unfolded full_def],
        rule 4 [unfolded full_def], rule 5 [unfolded late_def], rule 6 [unfolded late_def],
        rule 7 [unfolded late_def], rule 8 [unfolded late_def hst_def])
qed

section \<open>C4: the score of an exact match\<close>

lemma commonMappingStep_bound:
  "score \<le> 0.9 \<Longrightarrow> commonMappingStep c s score entry \<le> 0.9"
  by (simp add: commonMappingStep_def)

lemma commonMappings_fold_bound:
  "score \<le> 0.9 \<Longrightarrow> foldl (commonMappingStep c s) score entries \<le> 0.9"
proof (induction entries arbitrary: score)
  case Nil
  then show ?case by simp
next
  case (Cons entry entries)
  have "commonMappingStep c s score entry \<le> 0.9"
    using Cons.prems by (rule commonMappingStep_bound)
  then have "foldl (commonMappingStep c s) (commonMappingStep c s score entry) entries \<le> 0.9"
    by (rule Cons.IH)
  then show ?case by simp
qed

lemma calculateFieldMatchScore_exact:
  "calculateFieldMatchScore csvField f = 1 \<longleftrightarrow>
     normalizeFieldName csvField = normalizeFieldName (name f)
     \<or> normalizeFieldName csvField = normalizeFieldName (label f)"
proof (cases "normalizeFieldName csvField = normalizeFieldName (name f)
     \<or> normalizeFieldName csvField = normalizeFieldName (label f)")
  case True
  then show ?thesis by (auto simp: calculateFieldMatchScore_def Let_def)
next
  case False
  define score2 :: real where "score2 =
     (let score0 = 0;
          score1 = (if includesStr (normalizeFieldName csvField) (normalizeFieldName (name f))
                       \<or> includesStr (normalizeFieldName (name f)) (normalizeFieldName csvField)
                    then max score0 0.8 else score0)
      in (if includesStr (normalizeFieldName csvField) (normalizeFieldName (label f))
             \<or> includesStr (normalizeFieldName (label f)) (normalizeFieldName csvField)
          then max score1 0.7 else score1))"
  have "score2 \<le> 0.9" by (simp add: score2_def Let_def)
  then have "foldl (commonMappingStep (normalizeFieldName csvField) (normalizeFieldName (name f)))
               score2 commonMappings \<le> 0.9"
    by (rule commonMappings_fold_bound)
  moreover have "calculateFieldMatchScore csvField f
      = foldl (commonMappingStep (normalizeFieldName csvField) (normalizeFieldName (name f)))
               score2 commonMappings"
    using False by (simp add: calculateFieldMatchScore_def Let_def score2_def)
  ultimately have "calculateFieldMatchScore csvField f \<le> 0.9" by simp
  with False show ?thesis by auto
qed

lemma email_address_score:
  "calculateFieldMatchScore ''Email Address'' \<lparr> name = ''Email'', label = ''Email'', required = False \<rparr> = 0.9"
  by (simp add: calculateFieldMatchScore_def Let_def normalizeFieldName_def toLowerCase_def toLowerChar_def char_of_def isLowerAlnum_def stripIdSuffix_def suffix_def bit_Suc_0_iff commonMappings_def commonMappingStep_def)

text \<open>
  C4, as claimed: the score of the header \<open>Email Address\<close> against the field with name and
  label \<open>Email\<close> is exactly 1.0.  It is not: the header normalizes to \<open>emailaddress\<close>, the
  name and the label to \<open>email\<close>, so the exact-match rule does not apply.
\<close>

theorem email_address_score_is_not_one:
  "normalizeFieldName ''Email Address'' = ''emailaddress''
   \<and> normalizeFieldName ''Email'' = ''email''
   \<and> calculateFieldMatchScore ''Email Address''
         \<lparr> name = ''Email'', label = ''Email'', required = False \<rparr> \<noteq> 1"
proof -
  have "normalizeFieldName ''Email Address'' = ''emailaddress''" by code_simp
  moreover have "normalizeFieldName ''Email'' = ''email''" by code_simp
  ultimately show ?thesis by (simp add: email_address_score)
qed

text \<open>
  C4, amended.  The score of the header \<open>Email Address\<close> against the field with name and
  label \<open>Email\<close> is exactly 0.9 (the header contains the field name, 0.8, and the synonym
  group of \<open>email\<close> applies, 0.9).  For every header and field, the score is 1.0 exactly
  when the normalized header equals the normalized field name or the normalized label.
\<close>

theorem email_address_score_and_exact_match_rule:
  "calculateFieldMatchScore ''Email Address''
     \<lparr> name = ''Email'', label = ''Email'', required = False \<rparr> = 0.9
   \<and> (calculateFieldMatchScore csvField f = 1 \<longleftrightarrow>
        normalizeFieldName csvField = normalizeFieldName (name f)
        \<or> normalizeFieldName csvField = normalizeFieldName (label f))"
  using email_address_score calculateFieldMatchScore_exact [of csvField f] by blast

theorem email_address_score_and_exact_match_rule_witness:
  "normalizeFieldName ''E-mail'' = normalizeFieldName ''Email''
   \<and> calculateFieldMatchScore ''E-mail''
         \<lparr> name = ''Email'', label = ''Email Address'', required = False \<rparr> = 1"
proof -
  have n: "normalizeFieldName ''E-mail'' = normalizeFieldName ''Email''" by code_simp
  then have "calculateFieldMatchScore ''E-mail''
         \<lparr> name = ''Email'', label = ''Email Address'', required = False \<rparr> = 1"
    using email_address_score_and_exact_match_rule
      [of "''E-mail''" "\<lparr> name = ''Email'', label = ''Email Address'', required = False \<rparr>"]
    by simp
  with n show ?thesis by blast
qed

section \<open>C5: the poll loop\<close>

text \<open>
  The loop raises the timeout when the first \<open>maxAttempts - 1\<close> answers are in progress and
  the next request returns at all; it returns the first answer that is not in progress when
  that answer comes before request number \<open>maxAttempts\<close>.
\<close>

lemma monitorJob_times_out:
  "attempts < maxAttempts \<Longrightarrow>
   (\<And>i. attempts \<le> i \<Longrightarrow> i + 1 < maxAttempts \<Longrightarrow> \<exists>js. getStatus i = Inr js \<and> inProgress js) \<Longrightarrow>
   \<exists>js. getStatus (maxAttempts - 1) = Inr js \<Longrightarrow>
   monitorJob getStatus attempts = Inl (Error ''Job monitoring timeout'')"
proof (induction getStatus attempts rule: monitorJob.induct)
  case (1 getStatus attempts)
  show ?case
  proof (cases "attempts + 1 \<ge> maxAttempts")
    case True
    with "1.prems"(1) have "attempts = maxAttempts - 1" by simp
    with "1.prems"(3) obtain js where "getStatus attempts = Inr js" by auto
    with True show ?thesis by (subst monitorJob.simps) simp
  next
    case False
    then have "attempts + 1 < maxAttempts" by simp
    with "1.prems"(2) [of attempts] obtain js where js: "getStatus attempts = Inr js" "inProgress js"
      by auto
    have "monitorJob getStatus (attempts + 1) = Inl (Error ''Job monitoring timeout'')"
    proof (rule "1.IH" [OF js(1) False js(2)])
      show "attempts + 1 < maxAttempts" using False by simp
      show "\<exists>js. getStatus i = Inr js \<and> inProgress js"
        if "attempts + 1 \<le> i" "i + 1 < maxAttempts" for i
        using that "1.prems"(2) [of i] by simp
      show "\<exists>js. getStatus (maxAttempts - 1) = Inr js" by (rule "1.prems"(3))
    qed
    with js False show ?thesis by (subst monitorJob.simps) simp
  qed
qed

lemma monitorJob_returns:
  "attempts \<le> k \<Longrightarrow> k + 1 < maxAttempts \<Longrightarrow>
   (\<And>i. attempts \<le> i \<Longrightarrow> i < k \<Longrightarrow> \<exists>js. getStatus i = Inr js \<and> inProgress js) \<Longrightarrow>
   getStatus k = Inr final \<Longrightarrow> \<not> inProgress final \<Longrightarrow>
   monitorJob getStatus attempts = Inr final"
proof (induction getStatus attempts rule: monitorJob.induct)
  case (1 getStatus attempts)
  have small: "\<not> attempts + 1 \<ge> maxAttempts" using "1.prems"(1,2) by simp
  show ?case
  proof (cases "attempts = k")
    case True
    with "1.prems"(4,5) small show ?thesis by (subst monitorJob.simps) simp
  next
    case False
    then have lt: "attempts < k" using "1.prems"(1) by simp
    with "1.prems"(3) [of attempts] obtain js where js: "getStatus attempts = Inr js" "inProgress js"
      by auto
    have "monitorJob getStatus (attempts + 1) = Inr final"
    proof (rule "1.IH" [OF js(1) small js(2)])
      show "attempts + 1 \<le> k" using lt by simp
      show "k + 1 < maxAttempts" by (rule "1.prems"(2))
      show "\<exists>js. getStatus i = Inr js \<and> inProgress js" if "attempts + 1 \<le> i" "i < k" for i
        using that "1.prems"(3) [of i] by simp
      show "getStatus k = Inr final" by (rule "1.prems"(4))
      show "\<not> inProgress final" by (rule "1.prems"(5))
    qed
    with js small show ?thesis by (subst monitorJob.simps) simp
  qed
qed

lemma monitorJob_completing_at_30:
  "monitorJob (statusCompletingAt 30) 0 = Inl (Error ''Job monitoring timeout'')"
  by (rule monitorJob_times_out) (auto simp: maxAttempts_def statusCompletingAt_def inProgress_def)

lemma monitorJob_completing_at_29:
  "monitorJob (statusCompletingAt 29) 0
   = Inr \<lparr> state = ''JobComplete'', numberRecordsProcessed = 100, numberRecordsFailed = 5 \<rparr>"
  by (rule monitorJob_returns [where k = 28])
     (auto simp: maxAttempts_def statusCompletingAt_def inProgress_def)

text \<open>
  C5.  The claim: the run times out if and only if the attempt counter reaches 30 polls
  before the job state leaves the in-progress set; a sequence that leaves the in-progress
  set within 30 polls does not time out.  The code tests the counter before it looks at the
  state it has just fetched: a job that reports \<open>InProgress\<close> 29 times and \<open>JobComplete\<close> at
  the 30th poll ends in the timeout error, and the completed status is discarded.  A job
  that completes at the 29th poll is reported with its counts.
\<close>

theorem job_completing_at_poll_30_times_out:
  "performBulkUpload (remoteCompletingAt 30) objectName csvText operation
     = Inl (Error ''Bulk upload failed: Job monitoring timeout'')
   \<and> performBulkUpload (remoteCompletingAt 29) objectName csvText operation
     = Inr \<lparr> jobId = ''7501'',
             status = \<lparr> state = ''JobComplete'', numberRecordsProcessed = 100,
                        numberRecordsFailed = 5 \<rparr>,
             results = \<lparr> successful = ''ok'', failed = ''ko'' \<rparr>,
             recordsProcessed = 100, recordsFailed = 5 \<rparr>"
  by (simp add: performBulkUpload_def bulkUploadSteps_def remoteCompletingAt_def
      monitorJob_completing_at_30 monitorJob_completing_at_29 del: monitorJob.simps)

section \<open>C6: the header row of the payload\<close>

lemma length_ownEntries: "length (ownEntries obj) = length obj"
  by (simp add: ownEntries_def sum_length_filter_compl)

lemma ownEntries_Nil_iff: "ownEntries obj = [] \<longleftrightarrow> obj = []"
  using length_ownEntries [of obj] by (metis length_0_conv)

lemma objectKeys_Nil_iff: "objectKeys obj = [] \<longleftrightarrow> obj = []"
  by (simp add: objectKeys_def ownEntries_Nil_iff)

lemma ownEntries_no_index:
  "list_all (\<lambda>k. \<not> isArrayIndex k) (map fst obj) \<Longrightarrow> ownEntries obj = obj"
proof -
  assume a: "list_all (\<lambda>k. \<not> isArrayIndex k) (map fst obj)"
  then have 1: "filter (\<lambda>p. isArrayIndex (fst p)) obj = []"
    by (auto simp: list_all_iff filter_empty_conv)
  from a have 2: "filter (\<lambda>p. \<not> isArrayIndex (fst p)) obj = obj"
    by (auto simp: list_all_iff filter_id_conv)
  show ?thesis by (simp add: ownEntries_def 1 2)
qed

lemma generateMappedCSV_payload:
  "m \<noteq> [] \<Longrightarrow>
   generateMappedCSV (Some rows) m
   = Inr (join [LF] (join [COMMA] (objectValues m) # map (mappedRow m) rows))"
  by (simp add: generateMappedCSV_def objectKeys_Nil_iff)

lemma set_join: "set (join sep xs) \<subseteq> set sep \<union> \<Union> (set ` set xs)"
  by (induction sep xs rule: join.induct) auto

lemma takeWhile_first_line:
  "LF \<notin> set x \<Longrightarrow> takeWhile (\<lambda>c. c \<noteq> LF) (join [LF] (x # xs)) = x"
proof -
  assume x: "LF \<notin> set x"
  then have 1: "takeWhile (\<lambda>c. c \<noteq> LF) x = x" by (induction x) auto
  from x have 2: "takeWhile (\<lambda>c. c \<noteq> LF) (x @ LF # r) = x" for r by (induction x) auto
  show ?thesis by (cases xs) (simp_all add: 1 2)
qed

lemma header_row_of_payload:
  assumes "m \<noteq> []" and "list_all (\<lambda>t. LF \<notin> set t) (objectValues m)"
  shows "\<exists>payload. generateMappedCSV (Some rows) m = Inr payload
           \<and> takeWhile (\<lambda>c. c \<noteq> LF) payload = join [COMMA] (objectValues m)"
proof -
  have "LF \<notin> set (join [COMMA] (objectValues m))"
    using set_join [of "[COMMA]" "objectValues m"] assms(2) by (auto simp: list_all_iff)
  then show ?thesis
    using generateMappedCSV_payload [OF assms(1), of rows] takeWhile_first_line by simp
qed

lemma map_of_distinct_keys:
  "distinct (map fst obj) \<Longrightarrow> p \<in> set obj \<Longrightarrow> map_of obj (fst p) = Some (snd p)"
  by (cases p) simp

lemma values_in_column_order:
  assumes d: "distinct (map fst m)"
    and n: "list_all (\<lambda>k. \<not> isArrayIndex k) (map fst m)"
    and o: "map fst m = filter (\<lambda>h. h \<in> set (map fst m)) hs"
  shows "objectValues m = mappedTargetsInColumnOrder hs m"
proof -
  have dom: "(map_of m h \<noteq> None) = (h \<in> set (map fst m))" for h
    by (metis map_of_eq_None_iff set_map)
  have "mappedTargetsInColumnOrder hs m
        = map (the \<circ> map_of m) (filter (\<lambda>h. map_of m h \<noteq> None) hs)"
    by (simp add: mappedTargetsInColumnOrder_def List.map_filter_def ownProp_def [abs_def])
  also have "\<dots> = map (the \<circ> map_of m) (filter (\<lambda>h. h \<in> set (map fst m)) hs)"
    by (simp only: dom)
  also have "\<dots> = map (the \<circ> map_of m) (map fst m)"
    by (simp only: o [symmetric])
  also have "\<dots> = map snd m"
    using map_of_distinct_keys [OF d] by (simp add: comp_def)
  finally show ?thesis using ownEntries_no_index [OF n] by (simp add: objectValues_def)
qed

text \<open>
  C6, as claimed: for every parsed document and non-empty mapping table, the header row of
  the payload lists the mapped target field identifiers in the original CSV column order.
  \<open>generateMappedCSV\<close> never reads the headers of the document: it enumerates the mapping
  table.  For the document with columns \<open>A\<close>, \<open>B\<close>, after \<open>A\<close> and \<open>B\<close> have been mapped, the
  mapping of \<open>A\<close> cleared and \<open>A\<close> mapped again (popup.js does this on a change of the select
  box), the table enumerates \<open>B\<close> before \<open>A\<close>, and the header row is \<open>LastName,FirstName\<close>,
  not \<open>FirstName,LastName\<close>.
\<close>

theorem payload_header_row_not_in_column_order:
  "parseCSVText (''A,B'' @ [LF] @ ''Ann,Lee'')
     = Inr \<lparr> headers = [''A'', ''B''], data = [[(''A'', ''Ann''), (''B'', ''Lee'')]] \<rparr>
   \<and> setProp (deleteProp (setProp (setProp [] ''A'' ''FirstName'') ''B'' ''LastName'') ''A'')
        ''A'' ''FirstName''
     = [(''B'', ''LastName''), (''A'', ''FirstName'')]
   \<and> generateMappedCSV (Some [[(''A'', ''Ann''), (''B'', ''Lee'')]])
        [(''B'', ''LastName''), (''A'', ''FirstName'')]
     = Inr (''LastName,FirstName'' @ [LF] @ ''Lee,Ann'')
   \<and> join [COMMA] (mappedTargetsInColumnOrder [''A'', ''B'']
        [(''B'', ''LastName''), (''A'', ''FirstName'')])
     = ''FirstName,LastName''"
  by code_simp

text \<open>
  C6, amended.  For every document and non-empty mapping table, the payload is the header
  row and one line per row, joined by line feeds, each line comma-delimited; the header row
  lists the mapped target field identifiers in the enumeration order of the mapping table
  (headers that are array indices first, in ascending numeric order, then the other headers
  in the order in which they were first assigned), and it is the text of the payload up to
  its first line feed when no target identifier contains a line feed.  That order is the
  original CSV column order whenever no mapped header is an array index and the headers
  were assigned in column order.
\<close>

theorem payload_header_row_in_mapping_order:
  "(m \<noteq> [] \<longrightarrow>
      generateMappedCSV (Some rows) m
      = Inr (join [LF] (join [COMMA] (objectValues m) # map (mappedRow m) rows)))
   \<and> (m \<noteq> [] \<and> list_all (\<lambda>t. LF \<notin> set t) (objectValues m) \<longrightarrow>
        (\<exists>payload. generateMappedCSV (Some rows) m = Inr payload
           \<and> takeWhile (\<lambda>c. c \<noteq> LF) payload = join [COMMA] (objectValues m)))
   \<and> (distinct (map fst m) \<and> list_all (\<lambda>k. \<not> isArrayIndex k) (map fst m)
        \<and> map fst m = filter (\<lambda>h. h \<in> set (map fst m)) hs \<longrightarrow>
        objectValues m = mappedTargetsInColumnOrder hs m)"
  using generateMappedCSV_payload [of m rows] header_row_of_payload [of m rows]
    values_in_column_order [of m hs]
  by blast

theorem payload_header_row_in_mapping_order_witness:
  "[(''A'', ''FirstName''), (''B'', ''LastName'')] \<noteq> []
   \<and> list_all (\<lambda>t. LF \<notin> set t) (objectValues [(''A'', ''FirstName''), (''B'', ''LastName'')])
   \<and> distinct (map fst [(''A'', ''FirstName''), (''B'', ''LastName'')])
   \<and> list_all (\<lambda>k. \<not> isArrayIndex k) (map fst [(''A'', ''FirstName''), (''B'', ''LastName'')])
   \<and> map fst [(''A'', ''FirstName''), (''B'', ''LastName'')]
       = filter (\<lambda>h. h \<in> set (map fst [(''A'', ''FirstName''), (''B'', ''LastName'')]))
           [''A'', ''C'', ''B'']
   \<and> (\<exists>payload.
         generateMappedCSV (Some [[(''A'', ''Ann''), (''C'', ''x''), (''B'', ''Lee'')]])
           [(''A'', ''FirstName''), (''B'', ''LastName'')] = Inr payload
         \<and> takeWhile (\<lambda>c. c \<noteq> LF) payload
             = join [COMMA] (objectValues [(''A'', ''FirstName''), (''B'', ''LastName'')]))
   \<and> objectValues [(''A'', ''FirstName''), (''B'', ''LastName'')]
       = mappedTargetsInColumnOrder [''A'', ''C'', ''B'']
           [(''A'', ''FirstName''), (''B'', ''LastName'')]"
proof -
  have 1: "[(''A'', ''FirstName''), (''B'', ''LastName'')] \<noteq> ([] :: string jsobj)"
    by simp
  have 2: "list_all (\<lambda>t. LF \<notin> set t)
             (objectValues [(''A'', ''FirstName''), (''B'', ''LastName'')])"
    by code_simp
  have 3: "distinct (map fst [(''A'', ''FirstName''), (''B'', ''LastName'')])"
    by simp
  have 4: "list_all (\<lambda>k. \<not> isArrayIndex k)
             (map fst [(''A'', ''FirstName''), (''B'', ''LastName'')])"
    by code_simp
  have 5: "map fst [(''A'', ''FirstName''), (''B'', ''LastName'')]
       = filter (\<lambda>h. h \<in> set (map fst [(''A'', ''FirstName''), (''B'', ''LastName'')]))
           [''A'', ''C'', ''B'']"
    by simp
  show ?thesis
    using 1 2 3 4 5
      payload_header_row_in_mapping_order
        [of "[(''A'', ''FirstName''), (''B'', ''LastName'')]"
            "[[(''A'', ''Ann''), (''C'', ''x''), (''B'', ''Lee'')]]" "[''A'', ''C'', ''B'']"]
    by blast
qed

section \<open>C8: the suggestion engine\<close>

text \<open>
  The inner loop ends with the highest score of the header over the fields and with the
  first field, in enumeration order, that attains it; the outer loop assigns the name of
  that field to the header when the score exceeds 0.6.
\<close>

lemma bestMatch_fold:
  fixes s :: "targetField \<Rightarrow> real"
  defines "hi \<equiv> (\<lambda>(b::real) fs. Max (insert b (set (map s fs))))"
  assumes step: "\<And>best f. bestMatchStep nh best f = (if s f > snd best then (Some f, s f) else best)"
  shows "foldl (bestMatchStep nh) (bm, bs) fs
         = (if hi bs fs > bs then find (\<lambda>f. s f = hi bs fs) fs else bm, hi bs fs)"
proof (induction fs arbitrary: bm bs)
  case Nil
  then show ?case by (simp add: hi_def)
next
  case (Cons x xs)
  have ge: "b \<le> hi b xs" for b by (simp add: hi_def)
  have hi_Cons: "hi b (x # xs) = hi (max b (s x)) xs" for b
    by (cases "set xs = {}") (simp_all add: hi_def max.assoc max.commute insert_commute)
  show ?case
  proof (cases "s x > bs")
    case True
    then have m: "max bs (s x) = s x" by simp
    have gt: "hi (s x) xs > bs" using True ge [of "s x"] by simp
    have "foldl (bestMatchStep nh) (bm, bs) (x # xs) = foldl (bestMatchStep nh) (Some x, s x) xs"
      using True by (simp add: step)
    also have "\<dots> = (if hi (s x) xs > s x then find (\<lambda>f. s f = hi (s x) xs) xs else Some x,
                      hi (s x) xs)"
      by (rule Cons.IH)
    also have "\<dots> = (find (\<lambda>f. s f = hi (s x) xs) (x # xs), hi (s x) xs)"
      using ge [of "s x"] by auto
    finally show ?thesis using gt by (simp add: hi_Cons m)
  next
    case False
    then have m: "max bs (s x) = bs" by simp
    have "foldl (bestMatchStep nh) (bm, bs) (x # xs) = foldl (bestMatchStep nh) (bm, bs) xs"
      using False by (simp add: step)
    also have "\<dots> = (if hi bs xs > bs then find (\<lambda>f. s f = hi bs xs) xs else bm, hi bs xs)"
      by (rule Cons.IH)
    also have "\<dots> = (if hi bs xs > bs then find (\<lambda>f. s f = hi bs xs) (x # xs) else bm, hi bs xs)"
      using False by auto
    finally show ?thesis by (simp add: hi_Cons m)
  qed
qed

lemma bestMatchOf_highest:
  "bestMatchOf (normalizeFieldName h) fs
   = (if highestScore h fs > 0 then find (\<lambda>f. headerScore h f = highestScore h fs) fs else None,
      highestScore h fs)"
  unfolding bestMatchOf_def highestScore_def
  by (rule bestMatch_fold) (simp add: bestMatchStep_def headerScore_def Let_def)

lemma highestScore_attained:
  "highestScore h fs > 0 \<Longrightarrow> \<exists>f. find (\<lambda>f. headerScore h f = highestScore h fs) fs = Some f"
proof -
  assume a: "highestScore h fs > 0"
  have "highestScore h fs \<in> insert 0 (set (map (headerScore h) fs))"
    unfolding highestScore_def by (rule Max_in) simp_all
  with a have "highestScore h fs \<in> set (map (headerScore h) fs)" by auto
  then obtain f where "f \<in> set fs" "headerScore h f = highestScore h fs" by auto
  then have "find (\<lambda>f. headerScore h f = highestScore h fs) fs \<noteq> None"
    by (auto simp: find_None_iff)
  then show ?thesis by auto
qed

lemma suggestionsLoop_result:
  "\<exists>sug. suggestionsLoop hs fs sug0 = Inr sug
     \<and> (\<forall>h. ownProp sug h =
           (if h \<in> set hs \<and> highestScore h fs > 0.6
               \<and> (h \<noteq> ''__proto__'' \<or> ownProp sug0 h \<noteq> None)
            then map_option name (find (\<lambda>f. headerScore h f = highestScore h fs) fs)
            else ownProp sug0 h))"
proof (induction hs arbitrary: sug0)
  case Nil
  then show ?case by simp
next
  case (Cons x xs)
  show ?case
  proof (cases "highestScore x fs > 0.6")
    case True
    then have "highestScore x fs > 0" by simp
    then obtain f where f: "find (\<lambda>f. headerScore x f = highestScore x fs) fs = Some f"
      using highestScore_attained by blast
    have step: "suggestionsLoop (x # xs) fs sug0 = suggestionsLoop xs fs (setProp sug0 x (name f))"
      using True \<open>highestScore x fs > 0\<close> f by (simp add: bestMatchOf_highest)
    obtain sug where sug: "suggestionsLoop xs fs (setProp sug0 x (name f)) = Inr sug"
      and each: "\<And>h. ownProp sug h =
           (if h \<in> set xs \<and> highestScore h fs > 0.6
               \<and> (h \<noteq> ''__proto__'' \<or> ownProp (setProp sug0 x (name f)) h \<noteq> None)
            then map_option name (find (\<lambda>f. headerScore h f = highestScore h fs) fs)
            else ownProp (setProp sug0 x (name f)) h)"
      using Cons.IH [of "setProp sug0 x (name f)"] by blast
    have "ownProp sug h =
           (if h \<in> set (x # xs) \<and> highestScore h fs > 0.6
               \<and> (h \<noteq> ''__proto__'' \<or> ownProp sug0 h \<noteq> None)
            then map_option name (find (\<lambda>f. headerScore h f = highestScore h fs) fs)
            else ownProp sug0 h)" for h
    proof (cases "h = x")
      case hx: True
      show ?thesis
      proof (cases "x \<noteq> ''__proto__'' \<or> ownProp sug0 x \<noteq> None")
        case True
        then have "ownProp (setProp sug0 x (name f)) x = Some (name f)"
          by (simp add: ownProp_setProp)
        then have "ownProp sug x = Some (name f)"
          using each [of x] f by (simp split: if_splits)
        then show ?thesis using hx True \<open>highestScore x fs > 0.6\<close> f by simp
      next
        case False
        then have "ownProp (setProp sug0 x (name f)) x = None"
          by (simp add: ownProp_setProp)
        then have "ownProp sug x = None"
          using each [of x] False by simp
        then show ?thesis using hx False by simp
      qed
    next
      case False
      then have e: "ownProp (setProp sug0 x (name f)) h = ownProp sug0 h"
        by (simp add: ownProp_setProp)
      show ?thesis unfolding each [of h] e using False by simp
    qed
    then show ?thesis unfolding step using sug by blast
  next
    case False
    have step: "suggestionsLoop (x # xs) fs sug0 = suggestionsLoop xs fs sug0"
      using False by (simp add: bestMatchOf_highest)
    obtain sug where sug: "suggestionsLoop xs fs sug0 = Inr sug"
      and each: "\<And>h. ownProp sug h =
           (if h \<in> set xs \<and> highestScore h fs > 0.6
               \<and> (h \<noteq> ''__proto__'' \<or> ownProp sug0 h \<noteq> None)
            then map_option name (find (\<lambda>f. headerScore h f = highestScore h fs) fs)
            else ownProp sug0 h)"
      using Cons.IH [of sug0] by blast
    have "ownProp sug h =
           (if h \<in> set (x # xs) \<and> highestScore h fs > 0.6
               \<and> (h \<noteq> ''__proto__'' \<or> ownProp sug0 h \<noteq> None)
            then map_option name (find (\<lambda>f. headerScore h f = highestScore h fs) fs)
            else ownProp sug0 h)" for h
      using each [of h] False by (cases "h = x") simp_all
    then show ?thesis unfolding step using sug by blast
  qed
qed

lemma suggestions_characterisation:
  "\<exists>sug. generateMappingSuggestions hs fs = Inr sug
     \<and> (\<forall>h. ownProp sug h =
           (if h \<in> set hs \<and> highestScore h fs > 0.6 \<and> h \<noteq> ''__proto__''
            then map_option name (find (\<lambda>f. headerScore h f = highestScore h fs) fs)
            else None))"
proof -
  have e: "ownProp ([] :: string jsobj) k = None" for k by (simp add: ownProp_def)
  show ?thesis
    using suggestionsLoop_result [of hs fs "[]"]
    unfolding generateMappingSuggestions_def e by simp
qed

lemma suggestions_tie_example:
  "generateMappingSuggestions [''fname'', ''zzz'']
     [\<lparr> name = ''GivenName'', label = ''fname2'', required = False \<rparr>,
      \<lparr> name = ''FirstName'', label = ''First Name'', required = False \<rparr>,
      \<lparr> name = ''FirstName2'', label = ''First Name'', required = False \<rparr>]
   = Inr [(''fname'', ''FirstName'')]"
  by code_simp

text \<open>
  C8.  The claim: for every CSV header and every list of target fields, the engine keeps
  the first field attaining the highest score, and a suggestion for the header is emitted
  if and only if that best score is strictly greater than 0.6.  For the header \<open>__proto__\<close>
  and the field with label \<open>Proto\<close> the best score is 1, and yet the suggestions object comes
  back empty: the assignment \<open>suggestions[csvHeader] = bestMatch.name\<close> under that name
  creates no property.  With the header \<open>Proto\<close> the same field is suggested.  The engine
  does keep the first field with the highest score, and at every header but \<open>__proto__\<close>
  the suggestion is there exactly when the header is among the given ones and its highest
  score exceeds 0.6.
\<close>

theorem proto_header_gets_no_suggestion:
  "highestScore ''__proto__'' [\<lparr> name = ''Proto__c'', label = ''Proto'', required = False \<rparr>] = 1
   \<and> generateMappingSuggestions [''__proto__'']
         [\<lparr> name = ''Proto__c'', label = ''Proto'', required = False \<rparr>] = Inr []
   \<and> generateMappingSuggestions [''Proto'']
         [\<lparr> name = ''Proto__c'', label = ''Proto'', required = False \<rparr>]
       = Inr [(''Proto'', ''Proto__c'')]
   \<and> bestMatchOf (normalizeFieldName csvHeader) fs
       = (if highestScore csvHeader fs > 0
          then find (\<lambda>f. headerScore csvHeader f = highestScore csvHeader fs) fs else None,
          highestScore csvHeader fs)
   \<and> (\<exists>sug. generateMappingSuggestions hs fs = Inr sug
        \<and> (\<forall>h. ownProp sug h =
              (if h \<in> set hs \<and> highestScore h fs > 0.6 \<and> h \<noteq> ''__proto__''
               then map_option name (find (\<lambda>f. headerScore h f = highestScore h fs) fs)
               else None)))"
proof (intro conjI)
  show "highestScore ''__proto__'' [\<lparr> name = ''Proto__c'', label = ''Proto'', required = False \<rparr>] = 1"
    by code_simp
  show "generateMappingSuggestions [''__proto__'']
         [\<lparr> name = ''Proto__c'', label = ''Proto'', required = False \<rparr>] = Inr []"
    by code_simp
  show "generateMappingSuggestions [''Proto'']
         [\<lparr> name = ''Proto__c'', label = ''Proto'', required = False \<rparr>]
       = Inr [(''Proto'', ''Proto__c'')]"
    by code_simp
  show "bestMatchOf (normalizeFieldName csvHeader) fs
       = (if highestScore csvHeader fs > 0
          then find (\<lambda>f. headerScore csvHeader f = highestScore csvHeader fs) fs else None,
          highestScore csvHeader fs)"
    by (rule bestMatchOf_highest)
  show "\<exists>sug. generateMappingSuggestions hs fs = Inr sug
        \<and> (\<forall>h. ownProp sug h =
              (if h \<in> set hs \<and> highestScore h fs > 0.6 \<and> h \<noteq> ''__proto__''
               then map_option name (find (\<lambda>f. headerScore h f = highestScore h fs) fs)
               else None))"
    by (rule suggestions_characterisation)
qed

section \<open>C9: validating the mapping table\<close>

lemma indexOf_lower: "- 1 \<le> indexOf xs x"
  by (induction xs) (auto simp: Let_def)

lemma indexOf_eq_iff:
  "indexOf xs x = int i \<longleftrightarrow> i < length xs \<and> xs ! i = x \<and> x \<notin> set (take i xs)"
proof (induction xs arbitrary: i)
  case Nil
  then show ?case by simp
next
  case (Cons y ys)
  show ?case
  proof (cases "y = x")
    case True
    then show ?thesis by (cases i) auto
  next
    case False
    show ?thesis
    proof (cases i)
      case 0
      then show ?thesis using False indexOf_lower [of ys x] by (auto simp: Let_def)
    next
      case (Suc j)
      have "indexOf (y # ys) x = int (Suc j) \<longleftrightarrow> indexOf ys x = int j"
        using False by (auto simp: Let_def)
      also have "\<dots> \<longleftrightarrow> j < length ys \<and> ys ! j = x \<and> x \<notin> set (take j ys)"
        by (rule Cons.IH)
      finally show ?thesis using False Suc by auto
    qed
  qed
qed


lemma in_take_iff: "t \<in> set (take j vs) \<longleftrightarrow> (\<exists>i. i < j \<and> i < length vs \<and> vs ! i = t)"
proof
  assume "t \<in> set (take j vs)"
  then obtain i where i: "i < length (take j vs)" "take j vs ! i = t"
    by (auto simp: in_set_conv_nth)
  then have "i < j" "i < length vs" by simp_all
  moreover from i have "vs ! i = t" by simp
  ultimately show "\<exists>i. i < j \<and> i < length vs \<and> vs ! i = t" by blast
next
  assume "\<exists>i. i < j \<and> i < length vs \<and> vs ! i = t"
  then obtain i where i: "i < j" "i < length vs" "vs ! i = t" by blast
  then have "i < length (take j vs)" "take j vs ! i = t" by simp_all
  then show "t \<in> set (take j vs)" by (metis nth_mem)
qed

lemma zip_with_positions:
  "zip vs [0 ..< length vs] = map (\<lambda>i. (vs ! i, i)) [0 ..< length vs]"
  by (rule nth_equalityI) simp_all

lemma duplicateMappings_positions:
  "duplicateMappings vs
   = map (\<lambda>i. vs ! i) (filter (\<lambda>i. indexOf vs (vs ! i) \<noteq> int i) [0 ..< length vs])"
  by (simp only: duplicateMappings_def zip_with_positions filter_map map_map comp_def
        case_prod_conv fst_conv)

lemma set_duplicateMappings:
  "t \<in> set (duplicateMappings vs)
   \<longleftrightarrow> (\<exists>i j. i < j \<and> j < length vs \<and> vs ! i = t \<and> vs ! j = t)"
proof
  assume "t \<in> set (duplicateMappings vs)"
  then obtain j where j: "j < length vs" "indexOf vs (vs ! j) \<noteq> int j" "vs ! j = t"
    unfolding duplicateMappings_positions by auto
  then have "t \<in> set (take j vs)" by (simp add: indexOf_eq_iff)
  then obtain i where "i < j" "i < length vs" "vs ! i = t" unfolding in_take_iff by blast
  then show "\<exists>i j. i < j \<and> j < length vs \<and> vs ! i = t \<and> vs ! j = t"
    using j by blast
next
  assume "\<exists>i j. i < j \<and> j < length vs \<and> vs ! i = t \<and> vs ! j = t"
  then obtain i j where ij: "i < j" "j < length vs" "vs ! i = t" "vs ! j = t" by blast
  then have "i < length vs" by simp
  then have "t \<in> set (take j vs)" unfolding in_take_iff using ij by blast
  then have "indexOf vs (vs ! j) \<noteq> int j" using ij(4) by (simp add: indexOf_eq_iff)
  then have "j \<in> set (filter (\<lambda>i. indexOf vs (vs ! i) \<noteq> int i) [0 ..< length vs])"
    using ij(2) by simp
  then have "vs ! j \<in> set (duplicateMappings vs)"
    unfolding duplicateMappings_positions set_map by (rule imageI)
  then show "t \<in> set (duplicateMappings vs)" using ij(4) by simp
qed

lemma duplicateMappings_Nil_iff: "duplicateMappings vs = [] \<longleftrightarrow> distinct vs"
proof
  assume e: "duplicateMappings vs = []"
  show "distinct vs"
    unfolding distinct_conv_nth
  proof (intro allI impI)
    fix i j assume a: "i < length vs" "j < length vs" "i \<noteq> j"
    show "vs ! i \<noteq> vs ! j"
    proof
      assume eq: "vs ! i = vs ! j"
      have "\<exists>i' j'. i' < j' \<and> j' < length vs \<and> vs ! i' = vs ! j \<and> vs ! j' = vs ! j"
      proof (cases "i < j")
        case True
        with a eq show ?thesis by blast
      next
        case False
        with a have "j < i" by simp
        with a eq show ?thesis by metis
      qed
      then have "vs ! j \<in> set (duplicateMappings vs)" by (simp add: set_duplicateMappings)
      with e show False by simp
    qed
  qed
next
  assume d: "distinct vs"
  have "t \<notin> set (duplicateMappings vs)" for t
  proof
    assume "t \<in> set (duplicateMappings vs)"
    then obtain i j where "i < j" "j < length vs" "vs ! i = t" "vs ! j = t"
      unfolding set_duplicateMappings by blast
    then show False using d by (auto simp: distinct_conv_nth)
  qed
  then show "duplicateMappings vs = []" by (cases "duplicateMappings vs") auto
qed

lemma set_uniqueValues: "set (uniqueValues xs) = set xs"
proof -
  have "set (foldl (\<lambda>seen x. if x \<in> set seen then seen else seen @ [x]) acc xs)
        = set acc \<union> set xs" for acc
    by (induction xs arbitrary: acc) auto
  then show ?thesis by (simp add: uniqueValues_def)
qed

lemma distinct_uniqueValues: "distinct (uniqueValues xs)"
proof -
  have "distinct acc \<Longrightarrow>
        distinct (foldl (\<lambda>seen x. if x \<in> set seen then seen else seen @ [x]) acc xs)" for acc
    by (induction xs arbitrary: acc) auto
  then show ?thesis by (simp add: uniqueValues_def)
qed

lemma validateMappings_eq:
  "validateMappings m fs
   = map requiredFieldMessage
       (filter (\<lambda>f. name f \<notin> set (objectValues m)) (filter required fs))
     @ (if distinct (objectValues m) then []
        else [duplicatesMessage (duplicateMappings (objectValues m))])"
  using duplicateMappings_Nil_iff [of "objectValues m"]
  by (simp add: validateMappings_def Let_def)

text \<open>
  C9, as claimed: validation returns a non-empty error list exactly when the mapping
  invariant is violated, with an error naming each required target field absent from the
  mapped target field names (for the schema field named \<open>Email\<close>, an error reporting
  \<open>Email\<close>) and an error naming each target field mapped twice.  The check reads the name of
  a field, but the message is built from its label: for the required field with name
  \<open>AccountId\<close> and label \<open>Account ID\<close> the error reads
  \<open>Required field 'Account ID' is not mapped\<close> and does not contain the name.
\<close>

theorem required_field_error_names_label_not_name:
  "validateMappings [] [\<lparr> name = ''AccountId'', label = ''Account ID'', required = True \<rparr>]
     = [''Required field '' @ [SQUOTE] @ ''Account ID'' @ [SQUOTE] @ '' is not mapped'']
   \<and> \<not> includesStr
         (''Required field '' @ [SQUOTE] @ ''Account ID'' @ [SQUOTE] @ '' is not mapped'')
         ''AccountId''"
  by code_simp

text \<open>
  C9, amended.  For every mapping table and schema field list, the error list is empty
  exactly when every required field has its name among the mapped target names and no
  target is mapped twice.  For each required field whose name is not among the mapped
  target names the list holds the message \<open>Required field '<label>' is not mapped\<close>, which
  names the field by its label; when some target is mapped by two or more headers the list
  holds the message \<open>Duplicate mappings found for: \<dots>\<close>, which names exactly the targets
  that occur at two positions of the mapped values; and the list holds nothing else.
\<close>

theorem validateMappings_reports_invariant_violations:
  "(validateMappings m fs = [] \<longleftrightarrow>
      (\<forall>f \<in> set fs. required f \<longrightarrow> name f \<in> set (objectValues m))
      \<and> distinct (objectValues m))
   \<and> (\<forall>f \<in> set fs. required f \<and> name f \<notin> set (objectValues m)
         \<longrightarrow> requiredFieldMessage f \<in> set (validateMappings m fs))
   \<and> (\<not> distinct (objectValues m)
         \<longrightarrow> duplicatesMessage (duplicateMappings (objectValues m))
               \<in> set (validateMappings m fs))
   \<and> (\<forall>t. t \<in> set (uniqueValues (duplicateMappings (objectValues m)))
         \<longleftrightarrow> (\<exists>i j. i < j \<and> j < length (objectValues m)
                \<and> objectValues m ! i = t \<and> objectValues m ! j = t))
   \<and> set (validateMappings m fs)
       \<subseteq> requiredFieldMessage ` {f \<in> set fs. required f \<and> name f \<notin> set (objectValues m)}
         \<union> (if distinct (objectValues m) then {}
            else {duplicatesMessage (duplicateMappings (objectValues m))})"
  unfolding validateMappings_eq set_uniqueValues set_duplicateMappings
  by (auto simp: filter_empty_conv)

theorem validateMappings_reports_invariant_violations_witness:
  "\<lparr> name = ''Email'', label = ''Email'', required = True \<rparr>
     \<in> set [\<lparr> name = ''Email'', label = ''Email'', required = True \<rparr>]
   \<and> required \<lparr> name = ''Email'', label = ''Email'', required = True \<rparr>
   \<and> name \<lparr> name = ''Email'', label = ''Email'', required = True \<rparr>
       \<notin> set (objectValues ([] :: string jsobj))
   \<and> requiredFieldMessage \<lparr> name = ''Email'', label = ''Email'', required = True \<rparr>
       \<in> set (validateMappings [] [\<lparr> name = ''Email'', label = ''Email'', required = True \<rparr>])
   \<and> validateMappings [] [\<lparr> name = ''Email'', label = ''Email'', required = True \<rparr>]
       = [''Required field '' @ [SQUOTE] @ ''Email'' @ [SQUOTE] @ '' is not mapped'']
   \<and> \<not> distinct (objectValues [(''A'', ''Email''), (''B'', ''Email'')])
   \<and> duplicatesMessage (duplicateMappings (objectValues [(''A'', ''Email''), (''B'', ''Email'')]))
       \<in> set (validateMappings [(''A'', ''Email''), (''B'', ''Email'')]
               [\<lparr> name = ''Email'', label = ''Email'', required = True \<rparr>])
   \<and> validateMappings [(''A'', ''Email''), (''B'', ''Email'')]
         [\<lparr> name = ''Email'', label = ''Email'', required = True \<rparr>]
       = [''Duplicate mappings found for: Email'']
   \<and> validateMappings [(''A'', ''Email'')]
         [\<lparr> name = ''Email'', label = ''Email'', required = True \<rparr>] = []"
proof -
  define email where "email = \<lparr> name = ''Email'', label = ''Email'', required = True \<rparr>"
  have 1: "email \<in> set [email]" by simp
  have 2: "required email" by (simp add: email_def)
  have 3: "name email \<notin> set (objectValues ([] :: string jsobj))"
    by (simp add: objectValues_def ownEntries_def)
  have 4: "requiredFieldMessage email \<in> set (validateMappings [] [email])"
  proof -
    have "\<forall>f \<in> set [email]. required f \<and> name f \<notin> set (objectValues ([] :: string jsobj))
            \<longrightarrow> requiredFieldMessage f \<in> set (validateMappings [] [email])"
      by (rule validateMappings_reports_invariant_violations
            [of "[]" "[email]", THEN conjunct2, THEN conjunct1])
    then have "required email \<and> name email \<notin> set (objectValues ([] :: string jsobj))
            \<longrightarrow> requiredFieldMessage email \<in> set (validateMappings [] [email])"
      using 1 by (rule bspec)
    then show ?thesis using 2 3 by (rule_tac mp) (assumption, rule conjI)
  qed
  have 5: "validateMappings [] [\<lparr> name = ''Email'', label = ''Email'', required = True \<rparr>]
       = [''Required field '' @ [SQUOTE] @ ''Email'' @ [SQUOTE] @ '' is not mapped'']"
    by code_simp
  have 6: "\<not> distinct (objectValues [(''A'', ''Email''), (''B'', ''Email'')])"
    by code_simp
  have 7: "duplicatesMessage (duplicateMappings (objectValues [(''A'', ''Email''), (''B'', ''Email'')]))
       \<in> set (validateMappings [(''A'', ''Email''), (''B'', ''Email'')] [email])"
    using validateMappings_reports_invariant_violations
      [of "[(''A'', ''Email''), (''B'', ''Email'')]" "[email]",
       THEN conjunct2, THEN conjunct2, THEN conjunct1] 6
    by (rule mp)
  have 8: "validateMappings [(''A'', ''Email''), (''B'', ''Email'')]
         [\<lparr> name = ''Email'', label = ''Email'', required = True \<rparr>]
       = [''Duplicate mappings found for: Email'']"
    by code_simp
  have 9: "validateMappings [(''A'', ''Email'')]
         [\<lparr> name = ''Email'', label = ''Email'', required = True \<rparr>] = []"
    by code_simp
  show ?thesis
    by (intro conjI)
       (rule 1 [unfolded email_def], rule 2 [unfolded email_def], rule 3 [unfolded email_def],
        rule 4 [unfolded email_def], rule 5, rule 6, rule 7 [unfolded email_def], rule 8, rule 9)
qed

section \<open>C10: the copy returned by getMappings\<close>

lemma ownEntries_idem: "ownEntries (ownEntries obj) = ownEntries obj"
proof -
  define ix where "ix = sort_key (\<lambda>p. digitsValue (fst p)) (filter (\<lambda>p. isArrayIndex (fst p)) obj)"
  define rest where "rest = filter (\<lambda>p. \<not> isArrayIndex (fst p)) obj"
  have o: "ownEntries obj = ix @ rest" by (simp add: ownEntries_def ix_def rest_def)
  have a: "\<forall>p \<in> set ix. isArrayIndex (fst p)" by (simp add: ix_def)
  have b: "\<forall>p \<in> set rest. \<not> isArrayIndex (fst p)" by (simp add: rest_def)
  have 1: "filter (\<lambda>p. isArrayIndex (fst p)) (ix @ rest) = ix"
    using a b by (simp add: filter_id_conv filter_empty_conv)
  have 2: "filter (\<lambda>p. \<not> isArrayIndex (fst p)) (ix @ rest) = rest"
    using a b by (simp add: filter_id_conv filter_empty_conv)
  have "sorted (map (\<lambda>p. digitsValue (fst p)) ix)" unfolding ix_def by (rule sorted_sort_key)
  then have 3: "sort_key (\<lambda>p. digitsValue (fst p)) ix = ix" by (rule sort_key_id_if_sorted)
  have "ownEntries (ix @ rest) = ix @ rest"
    unfolding ownEntries_def 1 2 3 by (rule refl)
  then show ?thesis by (simp only: o)
qed

lemma set_ownEntries: "set (ownEntries obj) = set obj"
  by (auto simp: ownEntries_def)

lemma length_mutate: "length (mutate st a m) = length st"
  by (cases m) simp_all

lemma mutate_other: "b \<noteq> a \<Longrightarrow> mutate st a m ! b = st ! b"
  by (cases m) simp_all

lemma mutateAll_other: "b \<noteq> a \<Longrightarrow> mutateAll st a ms ! b = st ! b"
proof -
  assume ne: "b \<noteq> a"
  have "foldl (\<lambda>s m. mutate s a m) st ms ! b = st ! b"
  proof (induction ms arbitrary: st)
    case Nil
    then show ?case by simp
  next
    case (Cons m ms)
    have "foldl (\<lambda>s m. mutate s a m) (mutate st a m) ms ! b = mutate st a m ! b"
      by (rule Cons.IH)
    then show ?case using ne by (simp add: mutate_other)
  qed
  then show ?thesis by (simp add: mutateAll_def)
qed

lemma length_mutateAll: "length (mutateAll st a ms) = length st"
proof -
  have "length (foldl (\<lambda>s m. mutate s a m) st ms) = length st"
    by (induction ms arbitrary: st) (simp_all add: length_mutate)
  then show ?thesis by (simp add: mutateAll_def)
qed

lemma getMappings_fresh:
  "getMappings st this = (length st, st @ [ownEntries (st ! mappings this)])"
  by (simp add: getMappings_def alloc_def)

text \<open>
  C10.  \<open>getMappings\<close> returns a new object that holds the own properties of the mapping
  table, in the same enumeration order: for every processor whose mapping table is in the
  store, the returned address differs from the table's, and whatever assignments and
  deletions a caller then makes on the returned object, the mapping table is unchanged, so
  that \<open>validateMappings\<close> and \<open>generateMappedCSV\<close> give what they gave before, and a later
  \<open>getMappings\<close> returns again an object equal to the first copy as it was returned.
\<close>

theorem getMappings_returns_independent_copy:
  assumes valid: "mappings this < length st"
    and first: "getMappings st this = (a, st1)"
    and later: "getMappings (mutateAll st1 a ms) this = (a', st3)"
  shows "a \<noteq> mappings this
     \<and> set (st1 ! a) = set (st ! mappings this)
     \<and> ownEntries (st1 ! a) = ownEntries (st ! mappings this)
     \<and> st1 ! mappings this = st ! mappings this
     \<and> mutateAll st1 a ms ! mappings this = st ! mappings this
     \<and> validateMappingsOf (mutateAll st1 a ms) this fs = validateMappingsOf st this fs
     \<and> generateMappedCSVOf (mutateAll st1 a ms) this = generateMappedCSVOf st this
     \<and> st3 ! a' = st1 ! a"
proof -
  have a: "a = length st" and st1: "st1 = st @ [ownEntries (st ! mappings this)]"
    using first by (simp_all add: getMappings_fresh)
  have ne: "mappings this \<noteq> a" using valid a by simp
  have copy: "st1 ! a = ownEntries (st ! mappings this)" by (simp add: a st1)
  have keep1: "st1 ! mappings this = st ! mappings this"
    using valid by (simp add: st1 nth_append)
  have keep2: "mutateAll st1 a ms ! mappings this = st ! mappings this"
    using mutateAll_other [OF ne, of st1 ms] keep1 by simp
  have a': "a' = length (mutateAll st1 a ms)"
    and st3: "st3 = mutateAll st1 a ms @ [ownEntries (mutateAll st1 a ms ! mappings this)]"
    using later by (simp_all add: getMappings_fresh)
  have "st3 ! a' = ownEntries (mutateAll st1 a ms ! mappings this)" by (simp add: a' st3)
  then have again: "st3 ! a' = st1 ! a" by (simp add: keep2 copy)
  show ?thesis
  proof (intro conjI)
    show "a \<noteq> mappings this" using ne by simp
    show "set (st1 ! a) = set (st ! mappings this)" by (simp add: copy set_ownEntries)
    show "ownEntries (st1 ! a) = ownEntries (st ! mappings this)"
      by (simp add: copy ownEntries_idem)
    show "st1 ! mappings this = st ! mappings this" by (rule keep1)
    show "mutateAll st1 a ms ! mappings this = st ! mappings this" by (rule keep2)
    show "validateMappingsOf (mutateAll st1 a ms) this fs = validateMappingsOf st this fs"
      by (simp add: validateMappingsOf_def keep2)
    show "generateMappedCSVOf (mutateAll st1 a ms) this = generateMappedCSVOf st this"
      by (simp add: generateMappedCSVOf_def keep2)
    show "st3 ! a' = st1 ! a" by (rule again)
  qed
qed


theorem getMappings_returns_independent_copy_witness:
  "mappings \<lparr> csvData = Some [[(''A'', ''x@y.z'')]], csvHeaders = [''A''], rowCount = 1,
              mappings = 0 \<rparr> < length [[(''A'', ''Email'')]]
   \<and> getMappings [[(''A'', ''Email'')]]
         \<lparr> csvData = Some [[(''A'', ''x@y.z'')]], csvHeaders = [''A''], rowCount = 1,
           mappings = 0 \<rparr>
       = (1, [[(''A'', ''Email'')], [(''A'', ''Email'')]])
   \<and> mutateAll [[(''A'', ''Email'')], [(''A'', ''Email'')]] 1
         [Assign ''B'' ''Email'', Delete ''A'']
       = [[(''A'', ''Email'')], [(''B'', ''Email'')]]
   \<and> getMappings
         (mutateAll [[(''A'', ''Email'')], [(''A'', ''Email'')]] 1
            [Assign ''B'' ''Email'', Delete ''A''])
         \<lparr> csvData = Some [[(''A'', ''x@y.z'')]], csvHeaders = [''A''], rowCount = 1,
           mappings = 0 \<rparr>
       = (2, [[(''A'', ''Email'')], [(''B'', ''Email'')], [(''A'', ''Email'')]])
   \<and> validateMappingsOf
         (mutateAll [[(''A'', ''Email'')], [(''A'', ''Email'')]] 1
            [Assign ''B'' ''Email'', Delete ''A''])
         \<lparr> csvData = Some [[(''A'', ''x@y.z'')]], csvHeaders = [''A''], rowCount = 1,
           mappings = 0 \<rparr>
         [\<lparr> name = ''Email'', label = ''Email'', required = True \<rparr>]
       = validateMappingsOf [[(''A'', ''Email'')]]
           \<lparr> csvData = Some [[(''A'', ''x@y.z'')]], csvHeaders = [''A''], rowCount = 1,
             mappings = 0 \<rparr>
           [\<lparr> name = ''Email'', label = ''Email'', required = True \<rparr>]
   \<and> generateMappedCSVOf
         (mutateAll [[(''A'', ''Email'')], [(''A'', ''Email'')]] 1
            [Assign ''B'' ''Email'', Delete ''A''])
         \<lparr> csvData = Some [[(''A'', ''x@y.z'')]], csvHeaders = [''A''], rowCount = 1,
           mappings = 0 \<rparr>
       = generateMappedCSVOf [[(''A'', ''Email'')]]
           \<lparr> csvData = Some [[(''A'', ''x@y.z'')]], csvHeaders = [''A''], rowCount = 1,
             mappings = 0 \<rparr>"
proof -
  define this where "this =
    \<lparr> csvData = Some [[(''A'', ''x@y.z'')]], csvHeaders = [''A''], rowCount = 1,
      mappings = 0 \<rparr>"
  define st :: store where "st = [[(''A'', ''Email'')]]"
  define st1 :: store where "st1 = [[(''A'', ''Email'')], [(''A'', ''Email'')]]"
  define ms where "ms = [Assign ''B'' ''Email'', Delete ''A'']"
  define st3 :: store where
    "st3 = [[(''A'', ''Email'')], [(''B'', ''Email'')], [(''A'', ''Email'')]]"
  have 1: "mappings this < length st"
    by (simp add: this_def st_def)
  have 2: "getMappings st this = (1, st1)"
    unfolding this_def st_def st1_def by code_simp
  have 3: "mutateAll st1 1 ms = [[(''A'', ''Email'')], [(''B'', ''Email'')]]"
    unfolding st1_def ms_def by code_simp
  have 4: "getMappings (mutateAll st1 1 ms) this = (2, st3)"
    unfolding this_def st1_def ms_def st3_def by code_simp
  note all = getMappings_returns_independent_copy
    [OF 1 2 4, of "[\<lparr> name = ''Email'', label = ''Email'', required = True \<rparr>]"]
  have 5: "validateMappingsOf (mutateAll st1 1 ms) this
             [\<lparr> name = ''Email'', label = ''Email'', required = True \<rparr>]
           = validateMappingsOf st this
             [\<lparr> name = ''Email'', label = ''Email'', required = True \<rparr>]"
    by (rule all [THEN conjunct2, THEN conjunct2, THEN conjunct2, THEN conjunct2,
          THEN conjunct2, THEN conjunct1])
  have 6: "generateMappedCSVOf (mutateAll st1 1 ms) this = generateMappedCSVOf st this"
    by (rule all [THEN conjunct2, THEN conjunct2, THEN conjunct2, THEN conjunct2,
          THEN conjunct2, THEN conjunct2, THEN conjunct1])
  show ?thesis
    by (intro conjI)
       (rule 1 [unfolded this_def st_def],
        rule 2 [unfolded this_def st_def st1_def],
        rule 3 [unfolded st1_def ms_def],
        rule 4 [unfolded this_def st1_def ms_def st3_def],
        rule 5 [unfolded this_def st_def st1_def ms_def],
        rule 6 [unfolded this_def st_def st1_def ms_def])
qed

section \<open>The data lines of the payload\<close>

text \<open>
  Tokenizing a data line of the payload gives back the formatted cells of the row, one per
  mapped column, in the enumeration order of the mapping table.
\<close>

lemma parseCSVLine_mappedRow:
  assumes "m \<noteq> []"
  shows "parseCSVLine (mappedRow m row)
         = map (\<lambda>entry. formatValue (stringOf (orEmpty (getProp row (fst entry)))))
             (ownEntries m)"
proof -
  define vs where
    "vs = map (\<lambda>entry. formatValue (stringOf (orEmpty (getProp row (fst entry)))))
            (ownEntries m)"
  have ne: "vs \<noteq> []" using assms by (simp add: vs_def ownEntries_Nil_iff)
  have "mappedRow m row = join [COMMA] (map escapeValue vs)"
    by (simp add: mappedRow_def mappedCell_def vs_def comp_def)
  then have "parseCSVLine (mappedRow m row) = map trim vs"
    using scan_joined [OF ne, of "[]"] by (simp add: parseCSVLine_def)
  also have "\<dots> = vs" by (simp add: vs_def trim_formatValue comp_def)
  finally show ?thesis by (simp add: vs_def)
qed

end
